theory Spec2Isabelle
  imports Main "HOL-Library.Sublist"
begin

section \<open>Characters and whitespace\<close>

text \<open>
  A JavaScript string is a sequence of UTF-16 code units. The model uses HOL strings,
  whose characters are the code units below 256; every function below looks at a
  character only through the predicates of this section.

  \<open>isWhiteSpace\<close> is the class \<^verbatim>\<open>\s\<close> of a regular expression, which is also what
  \<^verbatim>\<open>String.prototype.trim\<close> strips (WhiteSpace and LineTerminator of the language
  standard): TAB, LF, VT, FF, CR, SPACE and NBSP in this range.
  \<open>isLineTerminator\<close> is what \<^verbatim>\<open>$\<close> looks for under the \<^verbatim>\<open>m\<close> flag (LF and CR here),
  \<open>isDigit\<close> is \<^verbatim>\<open>\d\<close>.
\<close>

definition isWhiteSpace :: "char \<Rightarrow> bool" where
  "isWhiteSpace c =
     (c \<in> set [CHR 0x09, CHR 0x0A, CHR 0x0B, CHR 0x0C, CHR 0x0D, CHR 0x20, CHR 0xA0])"

definition isLineTerminator :: "char \<Rightarrow> bool" where
  "isLineTerminator c = (c = CHR 0x0A \<or> c = CHR 0x0D)"

definition isDigit :: "char \<Rightarrow> bool" where
  "isDigit c = (c \<in> set ''0123456789'')"

text \<open>\<^verbatim>\<open>s.trim()\<close>: whitespace is dropped at both ends.\<close>

definition trimStart :: "string \<Rightarrow> string" where
  "trimStart s = dropWhile isWhiteSpace s"

definition trimEnd :: "string \<Rightarrow> string" where
  "trimEnd s = rev (dropWhile isWhiteSpace (rev s))"

definition trim :: "string \<Rightarrow> string" where
  "trim s = trimEnd (trimStart s)"

section \<open>Regular expressions with backtracking\<close>

text \<open>
  The pattern of \<^verbatim>\<open>formatResponse\<close> is run by the backtracking matcher of the language
  standard: a pattern is compiled to a matcher, a function that takes a continuation
  and a state, and calls the continuation on each way it can match, in the order of
  its priorities, until the continuation succeeds. Only the constructs that the
  pattern uses are modelled. The pattern has neither \<^verbatim>\<open>^\<close>, \<^verbatim>\<open>\b\<close> nor a lookbehind, so
  a state holds the text that is still to be read (its length gives the end index)
  and the captures made so far, the latest first.
\<close>

datatype charclass = Digit | Space | AnyChar | OneOf string

datatype regexp =
    Empty
  | Chr char
  | Cls charclass
  | Seq regexp regexp
  | Alt regexp regexp
  | Star bool regexp
  | Opt regexp
  | Group nat regexp
  | Lookahead regexp
  | EndOfLine

text \<open>
  \<open>Star greedy r\<close> is \<^verbatim>\<open>r*\<close> when \<open>greedy\<close> holds and \<^verbatim>\<open>r*?\<close> otherwise; \<open>Opt r\<close> is the
  greedy \<^verbatim>\<open>r?\<close>; \<open>Group n r\<close> is the \<open>n\<close>-th capturing group; \<open>Lookahead r\<close> is
  \<^verbatim>\<open>(?=r)\<close>; \<open>EndOfLine\<close> is \<^verbatim>\<open>$\<close> under the \<^verbatim>\<open>m\<close> flag; \<open>AnyChar\<close> is \<^verbatim>\<open>.\<close> under the
  \<^verbatim>\<open>s\<close> flag, which matches line terminators too.
\<close>

fun classMatches :: "charclass \<Rightarrow> char \<Rightarrow> bool" where
  "classMatches Digit c = isDigit c"
| "classMatches Space c = isWhiteSpace c"
| "classMatches AnyChar c = True"
| "classMatches (OneOf cs) c = (c \<in> set cs)"

type_synonym captures = "(nat \<times> string) list"
type_synonym mstate = "string \<times> captures"
type_synonym continuation = "mstate \<Rightarrow> mstate option"
type_synonym matcher = "continuation \<Rightarrow> mstate \<Rightarrow> mstate option"

text \<open>
  The standard's RepeatMatcher for a quantifier with no upper bound. An iteration
  that ends where it started is refused (the standard compares the end indices; a
  later state never has more text left, so the comparison of lengths is the same
  test), and this is what makes the recursion end.
\<close>

function repeatMatcher :: "matcher \<Rightarrow> bool \<Rightarrow> continuation \<Rightarrow> mstate \<Rightarrow> mstate option" where
  "repeatMatcher m greedy c x =
     (if greedy
      then (case m (\<lambda>y. if length (fst y) < length (fst x)
                        then repeatMatcher m greedy c y else None) x of
              Some r \<Rightarrow> Some r
            | None \<Rightarrow> c x)
      else (case c x of
              Some r \<Rightarrow> Some r
            | None \<Rightarrow> m (\<lambda>y. if length (fst y) < length (fst x)
                              then repeatMatcher m greedy c y else None) x))"
  by pat_completeness auto
termination
  by (relation "measure (\<lambda>(m, greedy, c, x). length (fst x))") auto

declare repeatMatcher.simps [simp del]

primrec compile :: "regexp \<Rightarrow> matcher" where
  "compile Empty = (\<lambda>c x. c x)"
| "compile (Chr a) =
     (\<lambda>c x. case fst x of [] \<Rightarrow> None
            | b # rest \<Rightarrow> if b = a then c (rest, snd x) else None)"
| "compile (Cls cc) =
     (\<lambda>c x. case fst x of [] \<Rightarrow> None
            | b # rest \<Rightarrow> if classMatches cc b then c (rest, snd x) else None)"
| "compile (Seq r1 r2) = (\<lambda>c x. compile r1 (compile r2 c) x)"
| "compile (Alt r1 r2) =
     (\<lambda>c x. case compile r1 c x of Some r \<Rightarrow> Some r | None \<Rightarrow> compile r2 c x)"
| "compile (Star greedy r) = repeatMatcher (compile r) greedy"
| "compile (Opt r) =
     (\<lambda>c x. case compile r (\<lambda>y. if length (fst y) < length (fst x) then c y else None) x of
              Some r \<Rightarrow> Some r
            | None \<Rightarrow> c x)"
| "compile (Group n r) =
     (\<lambda>c x. compile r
        (\<lambda>y. c (fst y, (n, take (length (fst x) - length (fst y)) (fst x)) # snd y)) x)"
| "compile (Lookahead r) =
     (\<lambda>c x. case compile r Some x of None \<Rightarrow> None | Some y \<Rightarrow> c (fst x, snd y))"
| "compile EndOfLine =
     (\<lambda>c x. case fst x of [] \<Rightarrow> c x
            | b # rest \<Rightarrow> if isLineTerminator b then c x else None)"

text \<open>\<^verbatim>\<open>r+\<close> and \<^verbatim>\<open>r+?\<close>: one iteration, then the unbounded quantifier.\<close>

definition oneOrMore :: "bool \<Rightarrow> regexp \<Rightarrow> regexp" where
  "oneOrMore greedy r = Seq r (Star greedy r)"

primrec seqs :: "regexp list \<Rightarrow> regexp" where
  "seqs [] = Empty"
| "seqs (r # rs) = Seq r (seqs rs)"

text \<open>
  \<^verbatim>\<open>regex.exec(content)\<close> of a global pattern, read from the text that starts at
  \<^verbatim>\<open>lastIndex\<close>: the match is tried at each start index in turn, the end of the text
  included, and the first success is returned. The first component of the result is
  the text after the match, where the next call starts.
\<close>

fun exec :: "regexp \<Rightarrow> string \<Rightarrow> mstate option" where
  "exec r [] = compile r Some ([], [])"
| "exec r (a # s) =
     (case compile r Some (a # s, []) of Some y \<Rightarrow> Some y | None \<Rightarrow> exec r s)"

section \<open>The Pair Extractor: formatResponse\<close>

text \<open>
  The pattern of \<^verbatim>\<open>formatResponse\<close>, with the flags \<^verbatim>\<open>g\<close>, \<^verbatim>\<open>m\<close> and \<^verbatim>\<open>s\<close>:
  \<^verbatim>\<open>/(?:\d+\.\s*)?[\*]*\s*Q:\s*(.+?)\s*[\*]*\s*A:\s*(.+?)(?=\n\d+\.|\nQ:|\n$)/gms\<close>
\<close>

definition regex :: regexp where
  "regex = seqs [
     Opt (seqs [oneOrMore True (Cls Digit), Chr CHR ''.'', Star True (Cls Space)]),
     Star True (Cls (OneOf ''*'')),
     Star True (Cls Space),
     Chr CHR ''Q'', Chr CHR '':'',
     Star True (Cls Space),
     Group 1 (oneOrMore False (Cls AnyChar)),
     Star True (Cls Space),
     Star True (Cls (OneOf ''*'')),
     Star True (Cls Space),
     Chr CHR ''A'', Chr CHR '':'',
     Star True (Cls Space),
     Group 2 (oneOrMore False (Cls AnyChar)),
     Lookahead
       (Alt (seqs [Chr CHR ''\<newline>'', oneOrMore True (Cls Digit), Chr CHR ''.''])
       (Alt (seqs [Chr CHR ''\<newline>'', Chr CHR ''Q'', Chr CHR '':''])
            (seqs [Chr CHR ''\<newline>'', EndOfLine])))]"

text \<open>
  How a later state relates to an earlier one in a run of a matcher: its text is a
  suffix of the earlier text, and every group captured before is still captured.
\<close>

definition later :: "mstate \<Rightarrow> mstate \<Rightarrow> bool" where
  "later x y = (suffix (fst y) (fst x) \<and> fst ` set (snd x) \<subseteq> fst ` set (snd y))"

lemma later_refl: "later x x"
  by (simp add: later_def)

lemma later_trans:
  assumes "later x y" and "later y z"
  shows "later x z"
proof -
  from assms have "suffix (fst z) (fst y)" and "suffix (fst y) (fst x)"
    by (simp_all add: later_def)
  then have sfx: "suffix (fst z) (fst x)"
    by (rule suffix_order.trans)
  from assms have "fst ` set (snd x) \<subseteq> fst ` set (snd y)"
    and "fst ` set (snd y) \<subseteq> fst ` set (snd z)"
    by (simp_all add: later_def)
  then have "fst ` set (snd x) \<subseteq> fst ` set (snd z)"
    by (rule subset_trans)
  with sfx show ?thesis
    by (simp add: later_def)
qed

lemma later_length: "later x y \<Longrightarrow> length (fst y) \<le> length (fst x)"
  by (simp add: later_def suffix_length_le)

lemma repeatMatcher_reaches:
  assumes m: "\<And>c x res. m c x = Some res \<Longrightarrow> \<exists>y. c y = Some res \<and> later x y"
  shows "repeatMatcher m greedy c x = Some res \<Longrightarrow> \<exists>y. c y = Some res \<and> later x y"
proof (induction "length (fst x)" arbitrary: x rule: less_induct)
  case less
  let ?d = "\<lambda>y. if length (fst y) < length (fst x) then repeatMatcher m greedy c y else None"
  have again: "\<exists>y. c y = Some res \<and> later x y" if "m ?d x = Some res"
  proof -
    from m [OF that] obtain y where y: "?d y = Some res" "later x y"
      by blast
    then have "length (fst y) < length (fst x)" "repeatMatcher m greedy c y = Some res"
      by (auto split: if_splits)
    from less.hyps [OF this] obtain z where "c z = Some res" "later y z"
      by blast
    with y(2) show ?thesis
      using later_trans by blast
  qed
  have stop: "\<exists>y. c y = Some res \<and> later x y" if "c x = Some res"
    using that later_refl by blast
  from less.prems
  have "(if greedy then (case m ?d x of Some r \<Rightarrow> Some r | None \<Rightarrow> c x)
         else (case c x of Some r \<Rightarrow> Some r | None \<Rightarrow> m ?d x)) = Some res"
    by (subst (asm) repeatMatcher.simps)
  then consider "m ?d x = Some res" | "c x = Some res"
    by (cases greedy; cases "m ?d x"; cases "c x") simp_all
  then show ?case
    using again stop by cases
qed

lemma compile_Chr:
  assumes "compile (Chr a) c x = Some res"
  shows "\<exists>rest. fst x = a # rest \<and> c (rest, snd x) = Some res"
  using assms by (cases "fst x") (simp_all split: if_splits)

lemma compile_Cls:
  assumes "compile (Cls cc) c x = Some res"
  shows "\<exists>b rest. fst x = b # rest \<and> c (rest, snd x) = Some res"
  using assms by (cases "fst x") (simp_all split: if_splits)

lemma later_tail: "fst x = b # rest \<Longrightarrow> later x (rest, snd x)"
  by (simp add: later_def suffix_Cons)

text \<open>
  Whatever a compiled pattern returns, its continuation returned it, on a later state.
\<close>

lemma compile_reaches:
  "compile r c x = Some res \<Longrightarrow> \<exists>y. c y = Some res \<and> later x y"
proof (induction r arbitrary: c x res)
  case Empty
  then have "c x = Some res"
    by simp
  then show ?case
    using later_refl by blast
next
  case (Chr a)
  from compile_Chr [OF Chr.prems] obtain rest
    where "fst x = a # rest" and "c (rest, snd x) = Some res"
    by blast
  then show ?case
    using later_tail by blast
next
  case (Cls cc)
  from compile_Cls [OF Cls.prems] obtain b rest
    where "fst x = b # rest" and "c (rest, snd x) = Some res"
    by blast
  then show ?case
    using later_tail by blast
next
  case (Seq r1 r2)
  from Seq.prems have "compile r1 (compile r2 c) x = Some res"
    by simp
  from Seq.IH(1) [OF this] obtain y where y: "compile r2 c y = Some res" "later x y"
    by blast
  from Seq.IH(2) [OF y(1)] obtain z where "c z = Some res" "later y z"
    by blast
  with y(2) show ?case
    using later_trans by blast
next
  case (Alt r1 r2)
  from Alt.prems consider "compile r1 c x = Some res" | "compile r2 c x = Some res"
    by (cases "compile r1 c x") simp_all
  then show ?case
    using Alt.IH by cases
next
  case (Star greedy r)
  from Star.prems have run: "repeatMatcher (compile r) greedy c x = Some res"
    by simp
  have "\<And>c x res. compile r c x = Some res \<Longrightarrow> \<exists>y. c y = Some res \<and> later x y"
    by (rule Star.IH)
  from repeatMatcher_reaches [of "compile r", OF this run] show ?case .
next
  case (Opt r)
  let ?d = "\<lambda>y. if length (fst y) < length (fst x) then c y else None"
  from Opt.prems consider "compile r ?d x = Some res" | "c x = Some res"
    by (cases "compile r ?d x") simp_all
  then show ?case
  proof cases
    case 1
    from Opt.IH [OF this] obtain y where "?d y = Some res" and "later x y"
      by blast
    then have "c y = Some res \<and> later x y"
      by (simp split: if_splits)
    then show ?thesis ..
  next
    case 2
    then show ?thesis
      using later_refl by blast
  qed
next
  case (Group n r)
  let ?cap = "\<lambda>y. (fst y, (n, take (length (fst x) - length (fst y)) (fst x)) # snd y)"
  from Group.prems have "compile r (\<lambda>y. c (?cap y)) x = Some res"
    by simp
  from Group.IH [OF this] obtain y where y: "c (?cap y) = Some res" "later x y"
    by blast
  from y(2) have "later x (?cap y)"
    by (auto simp: later_def)
  with y(1) show ?case
    by blast
next
  case (Lookahead r)
  from Lookahead.prems obtain y
    where y: "compile r Some x = Some y" and c: "c (fst x, snd y) = Some res"
    by (cases "compile r Some x") simp_all
  from Lookahead.IH [OF y] have "later x y"
    by simp
  then have "later x (fst x, snd y)"
    by (simp add: later_def)
  with c show ?case
    by blast
next
  case EndOfLine
  then have "c x = Some res"
    by (cases "fst x") (simp_all split: if_splits)
  then show ?case
    using later_refl by blast
qed

text \<open>A capturing group hands its continuation a state in which it is captured.\<close>

lemma compile_Group:
  assumes "compile (Group n r) c x = Some res"
  shows "\<exists>y. c y = Some res \<and> later x y \<and> n \<in> fst ` set (snd y)"
proof -
  let ?cap = "\<lambda>y. (fst y, (n, take (length (fst x) - length (fst y)) (fst x)) # snd y)"
  from assms have "compile r (\<lambda>y. c (?cap y)) x = Some res"
    by simp
  from compile_reaches [OF this] obtain y where y: "c (?cap y) = Some res" "later x y"
    by blast
  from y(2) have "later x (?cap y)"
    by (auto simp: later_def)
  moreover have "n \<in> fst ` set (snd (?cap y))"
    by simp
  ultimately show ?thesis
    using y(1) by blast
qed

lemma seqs_passes:
  "compile (seqs (pre @ post)) c x = Some res \<Longrightarrow>
   \<exists>y. compile (seqs post) c y = Some res \<and> later x y"
proof (induction pre arbitrary: x)
  case Nil
  then have "compile (seqs post) c x = Some res"
    by simp
  then show ?case
    using later_refl by blast
next
  case (Cons r pre)
  from Cons.prems have "compile r (compile (seqs (pre @ post)) c) x = Some res"
    by simp
  from compile_reaches [OF this] obtain y
    where y: "compile (seqs (pre @ post)) c y = Some res" "later x y"
    by blast
  from Cons.IH [OF y(1)] obtain z where "compile (seqs post) c z = Some res" "later y z"
    by blast
  with y(2) show ?case
    using later_trans by blast
qed

text \<open>Two characters in a row in a sequence are read one after the other.\<close>

lemma seqs_two_chars:
  assumes "compile (seqs (pre @ Chr a # Chr b # post)) c x = Some res"
  shows "\<exists>rest caps. later x (a # b # rest, caps) \<and>
           compile (seqs post) c (rest, caps) = Some res"
proof -
  from seqs_passes [OF assms] obtain y
    where y: "compile (seqs (Chr a # Chr b # post)) c y = Some res" "later x y"
    by blast
  from y(1) have "compile (Chr a) (compile (Chr b) (compile (seqs post) c)) y = Some res"
    by simp
  from compile_Chr [OF this] obtain r1
    where r1: "fst y = a # r1" "compile (Chr b) (compile (seqs post) c) (r1, snd y) = Some res"
    by blast
  from compile_Chr [OF r1(2)] obtain rest
    where rest: "r1 = b # rest" "compile (seqs post) c (rest, snd y) = Some res"
    by auto
  from r1(1) rest(1) have "y = (a # b # rest, snd y)"
    by (cases y) simp
  with y(2) have "later x (a # b # rest, snd y)"
    by simp
  with rest(2) have "later x (a # b # rest, snd y) \<and>
      compile (seqs post) c (rest, snd y) = Some res"
    by simp
  then show ?thesis
    by (intro exI)
qed

text \<open>A match that \<open>exec\<close> returns was found at some start index.\<close>

lemma exec_found:
  "exec r s = Some y \<Longrightarrow> \<exists>s'. suffix s' s \<and> compile r Some (s', []) = Some y"
proof (induction s)
  case Nil
  then have "suffix [] [] \<and> compile r Some ([], []) = Some y"
    by simp
  then show ?case ..
next
  case (Cons a s)
  from Cons.prems consider "compile r Some (a # s, []) = Some y" | "exec r s = Some y"
    by (cases "compile r Some (a # s, [])") simp_all
  then show ?case
  proof cases
    case 1
    then have "suffix (a # s) (a # s) \<and> compile r Some (a # s, []) = Some y"
      by simp
    then show ?thesis ..
  next
    case 2
    from Cons.IH [OF this] obtain s' where "suffix s' s" "compile r Some (s', []) = Some y"
      by (elim exE conjE)
    then have "suffix s' (a # s) \<and> compile r Some (s', []) = Some y"
      by (simp add: suffix_ConsI)
    then show ?thesis ..
  qed
qed

lemma later_keys: "later x y \<Longrightarrow> n \<in> fst ` set (snd x) \<Longrightarrow> n \<in> fst ` set (snd y)"
  unfolding later_def by (elim conjE) (rule subsetD)

lemma later_drop2: "later (a # b # rest, caps) (rest, caps)"
  by (simp add: later_def suffix_Cons)

lemma later_sublist:
  assumes "later (s, caps0) (a # b # rest, caps)"
  shows "sublist [a, b] s"
proof -
  from assms have "suffix ([a, b] @ rest) s"
    by (simp add: later_def)
  then obtain ps where "s = ps @ [a, b] @ rest"
    unfolding suffix_def by auto
  then show ?thesis
    unfolding sublist_def by (intro exI)
qed

lemma sublist_of_suffix:
  assumes "sublist w s'" and "suffix s' s"
  shows "sublist w s"
proof -
  from assms obtain ps ss qs where "s' = ps @ w @ ss" and "s = qs @ s'"
    unfolding sublist_def suffix_def by (elim exE)
  then have "s = (qs @ ps) @ w @ ss"
    by simp
  then show ?thesis
    unfolding sublist_def by (intro exI)
qed

text \<open>
  What every match of the pattern has: it reads at least one character, both groups
  are captured, and the text holds the markers \<^verbatim>\<open>Q:\<close> and \<^verbatim>\<open>A:\<close>.
\<close>

lemma regex_match:
  assumes "compile regex Some (s, []) = Some res"
  shows "length (fst res) < length s \<and>
         1 \<in> fst ` set (snd res) \<and> 2 \<in> fst ` set (snd res) \<and>
         sublist ''Q:'' s \<and> sublist ''A:'' s"
proof -
  let ?S = "Star True (Cls Space)"
  let ?E = "Star True (Cls (OneOf ''*''))"
  let ?g = "oneOrMore False (Cls AnyChar)"
  let ?la = "Lookahead
       (Alt (seqs [Chr CHR ''\<newline>'', oneOrMore True (Cls Digit), Chr CHR ''.''])
       (Alt (seqs [Chr CHR ''\<newline>'', Chr CHR ''Q'', Chr CHR '':''])
            (seqs [Chr CHR ''\<newline>'', EndOfLine])))"
  let ?tail3 = "[?S] @ Group 2 ?g # [?la]"
  let ?tail2 = "[?S, ?E, ?S] @ Chr CHR ''A'' # Chr CHR '':'' # ?tail3"
  let ?tail1 = "[?S] @ Group 1 ?g # ?tail2"
  let ?pre = "[Opt (seqs [oneOrMore True (Cls Digit), Chr CHR ''.'', ?S]), ?E, ?S]"
  have "regex = seqs (?pre @ Chr CHR ''Q'' # Chr CHR '':'' # ?tail1)"
    by (simp add: regex_def)
  with assms have "compile (seqs (?pre @ Chr CHR ''Q'' # Chr CHR '':'' # ?tail1)) Some (s, []) = Some res"
    by simp
  from seqs_two_chars [OF this] obtain rest1 caps1
    where q: "later (s, []) (CHR ''Q'' # CHR '':'' # rest1, caps1)"
      and t1: "compile (seqs ?tail1) Some (rest1, caps1) = Some res"
    by (elim exE conjE)
  from seqs_passes [OF t1] obtain y2
    where y2: "compile (seqs (Group 1 ?g # ?tail2)) Some y2 = Some res" "later (rest1, caps1) y2"
    by (elim exE conjE)
  from y2(1) have "compile (Group 1 ?g) (compile (seqs ?tail2) Some) y2 = Some res"
    by simp
  from compile_Group [OF this] obtain y3
    where y3: "compile (seqs ?tail2) Some y3 = Some res" "later y2 y3" "1 \<in> fst ` set (snd y3)"
    by (elim exE conjE)
  from seqs_two_chars [OF y3(1)] obtain rest4 caps4
    where a: "later y3 (CHR ''A'' # CHR '':'' # rest4, caps4)"
      and t3: "compile (seqs ?tail3) Some (rest4, caps4) = Some res"
    by (elim exE conjE)
  from seqs_passes [OF t3] obtain y5
    where y5: "compile (seqs (Group 2 ?g # [?la])) Some y5 = Some res" "later (rest4, caps4) y5"
    by (elim exE conjE)
  from y5(1) have "compile (Group 2 ?g) (compile (seqs [?la]) Some) y5 = Some res"
    by simp
  from compile_Group [OF this] obtain y6
    where y6: "compile (seqs [?la]) Some y6 = Some res" "later y5 y6" "2 \<in> fst ` set (snd y6)"
    by (elim exE conjE)
  from compile_reaches [OF y6(1)] have y7: "later y6 res"
    by simp
  have to_a: "later (s, []) (CHR ''A'' # CHR '':'' # rest4, caps4)"
    using q later_drop2 y2(2) y3(2) a by (blast intro: later_trans)
  have from_a: "later (rest4, caps4) res"
    using y5(2) y6(2) y7 by (blast intro: later_trans)
  have "length (fst res) \<le> length rest4"
    using later_length [OF from_a] by simp
  moreover have "length (CHR ''A'' # CHR '':'' # rest4) \<le> length s"
    using later_length [OF to_a] by simp
  ultimately have "length (fst res) < length s"
    by simp
  moreover have "1 \<in> fst ` set (snd res)"
  proof -
    from later_keys [OF a y3(3)] have "1 \<in> fst ` set (snd (rest4, caps4))"
      by simp
    from later_keys [OF from_a this] show ?thesis .
  qed
  moreover have "2 \<in> fst ` set (snd res)"
    by (rule later_keys [OF y7 y6(3)])
  moreover have "sublist ''Q:'' s"
    by (rule later_sublist [OF q])
  moreover have "sublist ''A:'' s"
    by (rule later_sublist [OF to_a])
  ultimately show ?thesis
    by (intro conjI)
qed

lemma exec_regex:
  assumes "exec regex s = Some res"
  shows "length (fst res) < length s \<and>
         1 \<in> fst ` set (snd res) \<and> 2 \<in> fst ` set (snd res) \<and>
         sublist ''Q:'' s \<and> sublist ''A:'' s"
proof -
  from exec_found [OF assms] obtain s'
    where s': "suffix s' s" "compile regex Some (s', []) = Some res"
    by (elim exE conjE)
  from regex_match [OF s'(2)]
  have m: "length (fst res) < length s'" "1 \<in> fst ` set (snd res)" "2 \<in> fst ` set (snd res)"
    "sublist ''Q:'' s'" "sublist ''A:'' s'"
    by simp_all
  from s'(1) have "length s' \<le> length s"
    by (rule suffix_length_le)
  with m(1) have "length (fst res) < length s"
    by simp
  moreover have "sublist ''Q:'' s"
    using m(4) s'(1) by (rule sublist_of_suffix)
  moreover have "sublist ''A:'' s"
    using m(5) s'(1) by (rule sublist_of_suffix)
  ultimately show ?thesis
    using m(2,3) by (intro conjI)
qed

text \<open>
  The lookahead at the end of the pattern has three alternatives, and each starts with
  a newline: the text that follows a match starts with a newline.
\<close>

lemma regex_match_before_newline:
  assumes "compile regex Some x = Some res"
  shows "\<exists>rest. fst res = CHR ''\<newline>'' # rest"
proof -
  let ?S = "Star True (Cls Space)"
  let ?E = "Star True (Cls (OneOf ''*''))"
  let ?g = "oneOrMore False (Cls AnyChar)"
  let ?a1 = "seqs [Chr CHR ''\<newline>'', oneOrMore True (Cls Digit), Chr CHR ''.'']"
  let ?a2 = "seqs [Chr CHR ''\<newline>'', Chr CHR ''Q'', Chr CHR '':'']"
  let ?a3 = "seqs [Chr CHR ''\<newline>'', EndOfLine]"
  let ?pre = "[Opt (seqs [oneOrMore True (Cls Digit), Chr CHR ''.'', ?S]), ?E, ?S,
     Chr CHR ''Q'', Chr CHR '':'', ?S, Group 1 ?g, ?S, ?E, ?S,
     Chr CHR ''A'', Chr CHR '':'', ?S, Group 2 ?g]"
  have "regex = seqs (?pre @ [Lookahead (Alt ?a1 (Alt ?a2 ?a3))])"
    by (simp add: regex_def)
  with assms
  have "compile (seqs (?pre @ [Lookahead (Alt ?a1 (Alt ?a2 ?a3))])) Some x = Some res"
    by simp
  from seqs_passes [OF this] obtain y
    where y: "compile (seqs [Lookahead (Alt ?a1 (Alt ?a2 ?a3))]) Some y = Some res"
    by (elim exE conjE)
  then obtain z where z: "compile (Alt ?a1 (Alt ?a2 ?a3)) Some y = Some z"
    and res: "res = (fst y, snd z)"
    by (cases "compile (Alt ?a1 (Alt ?a2 ?a3)) Some y") auto
  from z consider "compile ?a1 Some y = Some z" | "compile ?a2 Some y = Some z"
    | "compile ?a3 Some y = Some z"
    by (cases "compile ?a1 Some y"; cases "compile ?a2 Some y") simp_all
  then have "\<exists>rest. fst y = CHR ''\<newline>'' # rest"
  proof cases
    case 1
    then have "compile (Chr CHR ''\<newline>'')
        (compile (seqs [oneOrMore True (Cls Digit), Chr CHR ''.'']) Some) y = Some z"
      by simp
    from compile_Chr [OF this] show ?thesis
      by blast
  next
    case 2
    then have "compile (Chr CHR ''\<newline>'')
        (compile (seqs [Chr CHR ''Q'', Chr CHR '':'']) Some) y = Some z"
      by simp
    from compile_Chr [OF this] show ?thesis
      by blast
  next
    case 3
    then have "compile (Chr CHR ''\<newline>'') (compile (seqs [EndOfLine]) Some) y = Some z"
      by simp
    from compile_Chr [OF this] show ?thesis
      by blast
  qed
  with res show ?thesis
    by simp
qed

lemma exec_regex_needs_newline:
  assumes "exec regex s = Some res"
  shows "CHR ''\<newline>'' \<in> set s"
proof -
  from exec_found [OF assms] obtain s'
    where s': "suffix s' s" "compile regex Some (s', []) = Some res"
    by (elim exE conjE)
  from regex_match_before_newline [OF s'(2)] obtain rest
    where rest: "fst res = CHR ''\<newline>'' # rest"
    by (elim exE)
  from compile_reaches [OF s'(2)] have "later (s', []) res"
    by simp
  then have "suffix (CHR ''\<newline>'' # rest) s'"
    by (simp add: later_def rest)
  then have "suffix (CHR ''\<newline>'' # rest) s"
    using s'(1) by (rule suffix_order.trans)
  then show ?thesis
    by (auto simp: suffix_def)
qed

text \<open>
  The response of the chat completion call: a list of choices, each with a message
  whose content is a string or null.
\<close>

record message =
  content :: "string option"

record choice =
  message :: message

record response =
  choices :: "choice list"

text \<open>A pair of the result, \<^verbatim>\<open>{ front, back }\<close>, and the two errors that can be raised.\<close>

record flashcard =
  front :: string
  "back" :: string

datatype error = Error string | TypeError

text \<open>
  The loop of \<^verbatim>\<open>formatResponse\<close>:
  \<^verbatim>\<open>while ((match = regex.exec(content)) !== null) { ... cards.push({ front, back }); }\<close>
  \<open>remaining\<close> is the content from \<^verbatim>\<open>lastIndex\<close> on. A group that took no part in the
  match is \<^verbatim>\<open>undefined\<close>, and \<^verbatim>\<open>trim\<close> of it would raise a TypeError. The loop ends
  because a match of this pattern is never empty, which is the termination proof.
\<close>

function formatResponse_loop :: "string \<Rightarrow> flashcard list \<Rightarrow> error + flashcard list" where
  "formatResponse_loop remaining cards =
     (case exec regex remaining of
        None \<Rightarrow> Inr cards
      | Some match \<Rightarrow>
          (case map_of (snd match) 1 of
             None \<Rightarrow> Inl TypeError
           | Some m1 \<Rightarrow>
               (case map_of (snd match) 2 of
                  None \<Rightarrow> Inl TypeError
                | Some m2 \<Rightarrow>
                    formatResponse_loop (fst match)
                      (cards @ [\<lparr>front = trim m1, back = trim m2\<rparr>]))))"
  by pat_completeness auto
termination
proof (relation "measure (\<lambda>(remaining, cards). length remaining)")
  show "wf (measure (\<lambda>(remaining, cards). length remaining))"
    by simp
next
  fix remaining :: string and cards :: "flashcard list" and match m1 m2
  assume "exec regex remaining = Some match"
  from exec_regex [OF this] have "length (fst match) < length remaining"
    by simp
  then show "((fst match, cards @ [\<lparr>front = trim m1, back = trim m2\<rparr>]), (remaining, cards))
      \<in> measure (\<lambda>(remaining, cards). length remaining)"
    by simp
qed

declare formatResponse_loop.simps [simp del]

text \<open>
  \<^verbatim>\<open>formatResponse(response)\<close>. Reading \<^verbatim>\<open>response.choices[0].message\<close> raises a
  TypeError when there is no first choice; a content that is null or the empty
  string is falsy and raises \<^verbatim>\<open>Error("No content in the response")\<close>.
\<close>

definition formatResponse :: "response \<Rightarrow> error + flashcard list" where
  "formatResponse response =
     (case choices response of
        [] \<Rightarrow> Inl TypeError
      | first # others \<Rightarrow>
          (case content (message first) of
             None \<Rightarrow> Inl (Error ''No content in the response'')
           | Some text \<Rightarrow>
               if text = [] then Inl (Error ''No content in the response'')
               else formatResponse_loop text []))"

text \<open>The response with one choice whose message has the given content.\<close>

definition reply :: "string \<Rightarrow> response" where
  "reply text = \<lparr>choices = [\<lparr>message = \<lparr>content = Some text\<rparr>\<rparr>]\<rparr>"

text \<open>
  The content field of a response, as \<^verbatim>\<open>formatResponse\<close> reads it: absent when
  there is no first choice or its content is null.
\<close>

definition contentField :: "response \<Rightarrow> string option" where
  "contentField response =
     (case choices response of [] \<Rightarrow> None | first # others \<Rightarrow> content (message first))"

lemma formatResponse_loop_returns: "\<exists>found. formatResponse_loop s cards = Inr found"
proof (induction s cards rule: formatResponse_loop.induct)
  case (1 remaining cards)
  show ?case
  proof (cases "exec regex remaining")
    case None
    then show ?thesis
      by (simp add: formatResponse_loop.simps)
  next
    case (Some match)
    from exec_regex [OF Some]
    have "map_of (snd match) 1 \<noteq> None" and "map_of (snd match) 2 \<noteq> None"
      by (simp_all add: map_of_eq_None_iff)
    then obtain m1 m2
      where m: "map_of (snd match) 1 = Some m1" "map_of (snd match) 2 = Some m2"
      by (cases "map_of (snd match) 1"; cases "map_of (snd match) 2") simp_all
    from "1.IH" [OF Some m] obtain found
      where "formatResponse_loop (fst match) (cards @ [\<lparr>front = trim m1, back = trim m2\<rparr>]) = Inr found"
      by (elim exE)
    with Some m have "formatResponse_loop remaining cards = Inr found"
      by (subst formatResponse_loop.simps) simp
    then show ?thesis ..
  qed
qed

lemma formatResponse_loop_no_markers:
  assumes "\<not> sublist ''Q:'' s \<or> \<not> sublist ''A:'' s"
  shows "formatResponse_loop s [] = Inr []"
proof -
  have "exec regex s = None"
  proof (cases "exec regex s")
    case None
    then show ?thesis .
  next
    case (Some match)
    from exec_regex [OF this] assms show ?thesis
      by simp
  qed
  then show ?thesis
    by (simp add: formatResponse_loop.simps)
qed

subsection \<open>When formatResponse raises\<close>

text \<open>
  Claim C4. \<^verbatim>\<open>formatResponse\<close> raises an error if and only if the content field of the
  response is absent or empty. For every other response it returns a list of cards,
  and a content that lacks the marker \<^verbatim>\<open>Q:\<close> or the marker \<^verbatim>\<open>A:\<close> gives the empty
  list, not an error.
\<close>

theorem formatResponse_raises_iff_no_content:
  "((\<exists>e. formatResponse response = Inl e) =
      (contentField response = None \<or> contentField response = Some [])) \<and>
   (contentField response = Some text \<and> text \<noteq> [] \<and>
      (\<not> sublist ''Q:'' text \<or> \<not> sublist ''A:'' text) \<longrightarrow>
    formatResponse response = Inr [])"
proof (intro conjI impI)
  show "(\<exists>e. formatResponse response = Inl e) =
      (contentField response = None \<or> contentField response = Some [])"
  proof (cases "choices response")
    case Nil
    then show ?thesis
      by (simp add: formatResponse_def contentField_def)
  next
    case (Cons first others)
    show ?thesis
    proof (cases "content (message first)")
      case None
      with Cons show ?thesis
        by (simp add: formatResponse_def contentField_def)
    next
      case (Some t)
      obtain found where "formatResponse_loop t [] = Inr found"
        using formatResponse_loop_returns by blast
      with Cons Some show ?thesis
        by (simp add: formatResponse_def contentField_def)
    qed
  qed
next
  assume a: "contentField response = Some text \<and> text \<noteq> [] \<and>
      (\<not> sublist ''Q:'' text \<or> \<not> sublist ''A:'' text)"
  then obtain first others
    where "choices response = first # others" and "content (message first) = Some text"
    by (cases "choices response") (simp_all add: contentField_def)
  moreover from a have "formatResponse_loop text [] = Inr []"
    using formatResponse_loop_no_markers by blast
  ultimately show "formatResponse response = Inr []"
    using a by (simp add: formatResponse_def)
qed

theorem formatResponse_raises_iff_no_content_witness:
  "contentField (reply ''Hello there'') = Some ''Hello there'' \<and>
   \<not> sublist ''Q:'' ''Hello there'' \<and>
   formatResponse (reply ''Hello there'') = Inr [] \<and>
   contentField (reply []) = Some [] \<and>
   formatResponse (reply []) = Inl (Error ''No content in the response'')"
proof -
  have c: "contentField (reply ''Hello there'') = Some ''Hello there''"
    by (simp add: contentField_def reply_def)
  have q: "\<not> sublist ''Q:'' ''Hello there''"
    by (simp add: sublist_Cons_right)
  from formatResponse_raises_iff_no_content [of "reply ''Hello there''" "''Hello there''"] c q
  have "formatResponse (reply ''Hello there'') = Inr []"
    by simp
  moreover have "contentField (reply []) = Some []"
    by (simp add: contentField_def reply_def)
  moreover have "formatResponse (reply []) = Inl (Error ''No content in the response'')"
    by (simp add: formatResponse_def reply_def)
  ultimately show ?thesis
    using c q by simp
qed

subsection \<open>The two examples of the specification\<close>

text \<open>
  Claim C1. On the input
  \<^verbatim>\<open>"Q: What is 2+2? A: 4\nQ: What is the capital of France? A: Paris"\<close>, which has no
  newline at its end, the claim expects two pairs. Each alternative of the lookahead
  \<^verbatim>\<open>(?=\n\d+\.|\nQ:|\n$)\<close> starts with a newline, so the answer of the last block, which
  ends where the input ends, is followed by nothing that the lookahead accepts: the
  code returns the first pair only.
\<close>

theorem formatResponse_drops_last_block:
  "formatResponse
     (reply ''Q: What is 2+2? A: 4\<newline>Q: What is the capital of France? A: Paris'') =
   Inr [\<lparr>front = ''What is 2+2?'', back = ''4''\<rparr>]"
  by code_simp

text \<open>
  More generally, a content with no newline gives no pair at all.
\<close>

lemma formatResponse_one_line:
  assumes "CHR ''\<newline>'' \<notin> set text" and "text \<noteq> []"
  shows "formatResponse (reply text) = Inr []"
proof -
  have "exec regex text = None"
  proof (cases "exec regex text")
    case None
    then show ?thesis .
  next
    case (Some res)
    from exec_regex_needs_newline [OF this] assms(1) show ?thesis
      by simp
  qed
  then have "formatResponse_loop text [] = Inr []"
    by (simp add: formatResponse_loop.simps)
  with assms(2) show ?thesis
    by (simp add: formatResponse_def reply_def)
qed

text \<open>
  With a newline at the end of the same input, both pairs are returned.
\<close>

lemma formatResponse_trailing_newline:
  "formatResponse
     (reply ''Q: What is 2+2? A: 4\<newline>Q: What is the capital of France? A: Paris\<newline>'') =
   Inr [\<lparr>front = ''What is 2+2?'', back = ''4''\<rparr>,
        \<lparr>front = ''What is the capital of France?'', back = ''Paris''\<rparr>]"
  by code_simp

text \<open>
  Claim C3, as stated, fails. On the input
  \<^verbatim>\<open>"1. **Q: Foo? A: Bar**\n2. **Q: Baz? A: Qux**"\<close> the code returns one pair, and its
  back still ends with the emphasis characters.
\<close>

theorem formatResponse_emphasis_counterexample:
  "formatResponse (reply ''1. **Q: Foo? A: Bar**\<newline>2. **Q: Baz? A: Qux**'') =
   Inr [\<lparr>front = ''Foo?'', back = ''Bar**''\<rparr>]"
  by code_simp

text \<open>
  Claim C3, amended. On that input the Pair Extractor returns at least one pair, the
  emphasis characters are absent from the front of each returned pair, and the back
  of the first pair is \<^verbatim>\<open>Bar**\<close>. The pattern reads emphasis characters before
  \<^verbatim>\<open>Q:\<close> and before \<^verbatim>\<open>A:\<close> outside its groups, so a front has none; nothing reads
  them after the answer, so they stay in the back.
\<close>

theorem formatResponse_emphasis_kept_in_back:
  "\<exists>cards.
     formatResponse (reply ''1. **Q: Foo? A: Bar**\<newline>2. **Q: Baz? A: Qux**'') = Inr cards \<and>
     cards \<noteq> [] \<and>
     list_all (\<lambda>c. CHR ''*'' \<notin> set (front c)) cards \<and>
     front (hd cards) = ''Foo?'' \<and>
     back (hd cards) = ''Bar**''"
proof -
  have "formatResponse (reply ''1. **Q: Foo? A: Bar**\<newline>2. **Q: Baz? A: Qux**'') =
     Inr [\<lparr>front = ''Foo?'', back = ''Bar**''\<rparr>]"
    by code_simp
  then show ?thesis
    by simp
qed

text \<open>
  With a newline at the end of that input there are two pairs, and both backs keep
  their emphasis characters.
\<close>

lemma formatResponse_emphasis_trailing_newline:
  "formatResponse (reply ''1. **Q: Foo? A: Bar**\<newline>2. **Q: Baz? A: Qux**\<newline>'') =
   Inr [\<lparr>front = ''Foo?'', back = ''Bar**''\<rparr>, \<lparr>front = ''Baz?'', back = ''Qux**''\<rparr>]"
  by code_simp

section \<open>Whitespace normalisation\<close>

text \<open>
  \<^verbatim>\<open>text.replace(/\s+/g, " ")\<close>: every maximal run of whitespace is replaced by one
  space (the quantifier is greedy, and the next search starts after the run).
\<close>

function replaceWhitespace :: "string \<Rightarrow> string" where
  "replaceWhitespace [] = []"
| "replaceWhitespace (c # cs) =
     (if isWhiteSpace c then CHR '' '' # replaceWhitespace (dropWhile isWhiteSpace cs)
      else c # replaceWhitespace cs)"
  by pat_completeness auto
termination
  by (relation "measure length") (auto simp: length_dropWhile_le less_Suc_eq_le)

text \<open>After the whitespace at the start is dropped, the first character is not whitespace.\<close>

lemma word_starts:
  assumes "dropWhile isWhiteSpace s = c # cs"
  shows "\<not> isWhiteSpace c"
  using hd_dropWhile [of isWhiteSpace s] assms by simp

text \<open>
  The specification's reading of the same normalisation: the words of the text (its
  maximal runs of characters that are not whitespace), with one space between them.
\<close>

function splitWords :: "string \<Rightarrow> string list" where
  "splitWords s =
     (case dropWhile isWhiteSpace s of
        [] \<Rightarrow> []
      | c # cs \<Rightarrow>
          takeWhile (\<lambda>a. \<not> isWhiteSpace a) (c # cs) #
          splitWords (dropWhile (\<lambda>a. \<not> isWhiteSpace a) (c # cs)))"
  by pat_completeness auto
termination
proof (relation "measure length")
  show "wf (measure length)"
    by simp
next
  fix s :: string and c cs
  assume s: "dropWhile isWhiteSpace s = c # cs"
  then have "\<not> isWhiteSpace c"
    by (rule word_starts)
  then have "length (dropWhile (\<lambda>a. \<not> isWhiteSpace a) (c # cs)) \<le> length cs"
    by (simp add: length_dropWhile_le)
  moreover have "length (c # cs) \<le> length s"
    using length_dropWhile_le [of isWhiteSpace s] s by simp
  ultimately show "(dropWhile (\<lambda>a. \<not> isWhiteSpace a) (c # cs), s) \<in> measure length"
    by simp
qed

declare splitWords.simps [simp del]

fun joinWords :: "string list \<Rightarrow> string" where
  "joinWords [] = []"
| "joinWords [w] = w"
| "joinWords (w # v # ws) = w @ CHR '' '' # joinWords (v # ws)"

lemma space_is_white: "isWhiteSpace CHR '' ''"
  by (simp add: isWhiteSpace_def)

lemma replaceWhitespace_word:
  "\<forall>a\<in>set w. \<not> isWhiteSpace a \<Longrightarrow> replaceWhitespace (w @ r) = w @ replaceWhitespace r"
  by (induction w) simp_all

lemma replaceWhitespace_split:
  "replaceWhitespace s =
   takeWhile (\<lambda>a. \<not> isWhiteSpace a) s @ replaceWhitespace (dropWhile (\<lambda>a. \<not> isWhiteSpace a) s)"
proof -
  have "\<forall>a\<in>set (takeWhile (\<lambda>a. \<not> isWhiteSpace a) s). \<not> isWhiteSpace a"
    using set_takeWhileD by fastforce
  from replaceWhitespace_word [OF this, of "dropWhile (\<lambda>a. \<not> isWhiteSpace a) s"]
  show ?thesis
    by simp
qed

lemma trimEnd_Nil: "trimEnd [] = []"
  by (simp add: trimEnd_def)

lemma trimEnd_after_word:
  assumes "w \<noteq> []" and "\<not> isWhiteSpace (last w)"
  shows "trimEnd (w @ t) = w @ trimEnd t"
proof -
  from assms have w: "dropWhile isWhiteSpace (rev w) = rev w"
    by (cases w rule: rev_cases) simp_all
  define u where "u = rev t"
  have "dropWhile isWhiteSpace (u @ rev w) = dropWhile isWhiteSpace u @ rev w"
  proof (cases "\<forall>a\<in>set u. isWhiteSpace a")
    case True
    then show ?thesis
      by (simp add: w)
  next
    case False
    then show ?thesis
      by (auto simp: dropWhile_append1)
  qed
  then have "rev (dropWhile isWhiteSpace (rev (w @ t))) = w @ rev (dropWhile isWhiteSpace (rev t))"
    by (simp add: u_def)
  then show ?thesis
    by (simp only: trimEnd_def)
qed

lemma trimEnd_after_space:
  "trimEnd (CHR '' '' # t) = (if trimEnd t = [] then [] else CHR '' '' # trimEnd t)"
proof -
  define u where "u = rev t"
  have "dropWhile isWhiteSpace (u @ '' '') =
      (if dropWhile isWhiteSpace u = [] then [] else dropWhile isWhiteSpace u @ '' '')"
  proof (cases "\<forall>a\<in>set u. isWhiteSpace a")
    case True
    then show ?thesis
      by (simp add: space_is_white)
  next
    case False
    then show ?thesis
      by (auto simp: dropWhile_append1)
  qed
  then have "rev (dropWhile isWhiteSpace (rev (CHR '' '' # t))) =
      (if rev (dropWhile isWhiteSpace (rev t)) = [] then []
       else CHR '' '' # rev (dropWhile isWhiteSpace (rev t)))"
    by (simp add: u_def)
  then show ?thesis
    by (simp only: trimEnd_def)
qed

lemma splitWords_trimStart: "splitWords (dropWhile isWhiteSpace s) = splitWords s"
  by (subst splitWords.simps, subst (2) splitWords.simps) (simp only: dropWhile_idem)

lemma splitWords_word:
  assumes "\<not> isWhiteSpace c"
  shows "splitWords (c # cs) =
     takeWhile (\<lambda>a. \<not> isWhiteSpace a) (c # cs) #
     splitWords (dropWhile (\<lambda>a. \<not> isWhiteSpace a) (c # cs))"
  using assms by (subst splitWords.simps) simp

lemma splitWords_Nil: "splitWords [] = []"
  by (subst splitWords.simps) simp

lemma joinWords_Cons:
  "joinWords (w # rest) = (if rest = [] then w else w @ CHR '' '' # joinWords rest)"
  by (cases rest) simp_all

lemma joinWords_not_empty:
  assumes "splitWords s \<noteq> []"
  shows "joinWords (splitWords s) \<noteq> []"
proof -
  define s1 where "s1 = dropWhile isWhiteSpace s"
  have same: "splitWords s = splitWords s1"
    unfolding s1_def by (rule splitWords_trimStart [symmetric])
  show ?thesis
  proof (cases s1)
    case Nil
    with same assms show ?thesis
      by (simp add: splitWords_Nil)
  next
    case (Cons c cs)
    then have "\<not> isWhiteSpace c"
      unfolding s1_def by (rule word_starts)
    with Cons same show ?thesis
      by (simp add: splitWords_word joinWords_Cons)
  qed
qed

text \<open>
  Before the whitespace at the start is dropped: a text that starts with whitespace
  keeps one space in front of its words.
\<close>

lemma trimEnd_replaceWhitespace:
  "trimEnd (replaceWhitespace s) =
     (if splitWords s = [] then []
      else (case s of [] \<Rightarrow> [] | c # cs \<Rightarrow> if isWhiteSpace c then '' '' else []) @
        joinWords (splitWords s))"
proof (induction "length s" arbitrary: s rule: less_induct)
  case less
  show ?case
  proof (cases s)
    case Nil
    then show ?thesis
      by (simp add: trimEnd_Nil splitWords_Nil)
  next
    case (Cons c cs)
    show ?thesis
    proof (cases "isWhiteSpace c")
      case True
      define s1 where "s1 = dropWhile isWhiteSpace cs"
      have "length s1 < length s"
        unfolding s1_def using Cons length_dropWhile_le [of isWhiteSpace cs] by simp
      from less.hyps [OF this]
      have ih: "trimEnd (replaceWhitespace s1) =
          (if splitWords s1 = [] then []
           else (case s1 of [] \<Rightarrow> [] | c # cs \<Rightarrow> if isWhiteSpace c then '' '' else []) @
             joinWords (splitWords s1))" .
      have "(case s1 of [] \<Rightarrow> [] | c # cs \<Rightarrow> if isWhiteSpace c then '' '' else []) = []"
      proof (cases s1)
        case Nil
        then show ?thesis
          by simp
      next
        case (Cons d ds)
        then have "\<not> isWhiteSpace d"
          unfolding s1_def by (rule word_starts)
        with Cons show ?thesis
          by simp
      qed
      with ih have ih': "trimEnd (replaceWhitespace s1) =
          (if splitWords s1 = [] then [] else joinWords (splitWords s1))"
        by simp
      have "s1 = dropWhile isWhiteSpace s"
        unfolding s1_def using Cons True by simp
      then have same: "splitWords s1 = splitWords s"
        by (simp only: splitWords_trimStart)
      have "replaceWhitespace s = CHR '' '' # replaceWhitespace s1"
        unfolding s1_def using Cons True by simp
      then have "trimEnd (replaceWhitespace s) =
          (if trimEnd (replaceWhitespace s1) = [] then []
           else CHR '' '' # trimEnd (replaceWhitespace s1))"
        by (simp only: trimEnd_after_space)
      also have "\<dots> = (if splitWords s = [] then [] else CHR '' '' # joinWords (splitWords s))"
        using joinWords_not_empty [of s] by (simp add: ih' same)
      finally show ?thesis
        using Cons True by simp
    next
      case False
      define w where "w = takeWhile (\<lambda>a. \<not> isWhiteSpace a) s"
      define r where "r = dropWhile (\<lambda>a. \<not> isWhiteSpace a) s"
      have s: "s = w @ r"
        unfolding w_def r_def by simp
      have w: "w = c # takeWhile (\<lambda>a. \<not> isWhiteSpace a) cs"
        unfolding w_def using Cons False by simp
      then have "w \<noteq> []"
        by simp
      then have "last w \<in> set w"
        by (rule last_in_set)
      then have lastw: "\<not> isWhiteSpace (last w)"
        unfolding w_def by (rule set_takeWhileD [THEN conjunct2])
      have "length r < length s"
        using s w by simp
      from less.hyps [OF this]
      have ih: "trimEnd (replaceWhitespace r) =
          (if splitWords r = [] then []
           else (case r of [] \<Rightarrow> [] | c # cs \<Rightarrow> if isWhiteSpace c then '' '' else []) @
             joinWords (splitWords r))" .
      have "(case r of [] \<Rightarrow> [] | c # cs \<Rightarrow> if isWhiteSpace c then '' '' else []) = '' ''"
        if "splitWords r \<noteq> []"
      proof (cases r)
        case Nil
        with that show ?thesis
          by (simp add: splitWords_Nil)
      next
        case (Cons d ds)
        then have "\<not> \<not> isWhiteSpace d"
          unfolding r_def using hd_dropWhile [of "\<lambda>a. \<not> isWhiteSpace a" s] by simp
        with Cons show ?thesis
          by simp
      qed
      with ih have ih': "trimEnd (replaceWhitespace r) =
          (if splitWords r = [] then [] else CHR '' '' # joinWords (splitWords r))"
        by simp
      have split: "splitWords s = w # splitWords r"
        unfolding w_def r_def using Cons False splitWords_word [of c cs] by simp
      have "replaceWhitespace s = w @ replaceWhitespace r"
        unfolding w_def r_def by (rule replaceWhitespace_split)
      then have "trimEnd (replaceWhitespace s) = trimEnd (w @ replaceWhitespace r)"
        by simp
      also have "\<dots> = w @ trimEnd (replaceWhitespace r)"
        using \<open>w \<noteq> []\<close> lastw by (rule trimEnd_after_word)
      also have "\<dots> = joinWords (splitWords s)"
        unfolding split ih' by (simp add: joinWords_Cons)
      finally show ?thesis
        using Cons False split by simp
    qed
  qed
qed

lemma trimStart_replaceWhitespace:
  "trimStart (replaceWhitespace s) = replaceWhitespace (trimStart s)"
proof (cases s)
  case Nil
  then show ?thesis
    by (simp add: trimStart_def)
next
  case (Cons c cs)
  show ?thesis
  proof (cases "isWhiteSpace c")
    case True
    define s1 where "s1 = dropWhile isWhiteSpace cs"
    have "dropWhile isWhiteSpace (replaceWhitespace s1) = replaceWhitespace s1"
    proof (cases s1)
      case Nil
      then show ?thesis
        by simp
    next
      case (Cons d ds)
      then have "\<not> isWhiteSpace d"
        unfolding s1_def by (rule word_starts)
      with Cons show ?thesis
        by simp
    qed
    with Cons True show ?thesis
      by (simp add: trimStart_def space_is_white s1_def)
  next
    case False
    with Cons show ?thesis
      by (simp add: trimStart_def)
  qed
qed

text \<open>
  The normalisation of the source, \<^verbatim>\<open>replace(/\s+/g, " ").trim()\<close>, gives the words of
  the text with one space between them.
\<close>

lemma trim_replaceWhitespace: "trim (replaceWhitespace s) = joinWords (splitWords s)"
proof -
  define s1 where "s1 = trimStart s"
  have "(case s1 of [] \<Rightarrow> [] | c # cs \<Rightarrow> if isWhiteSpace c then '' '' else []) = []"
  proof (cases s1)
    case Nil
    then show ?thesis
      by simp
  next
    case (Cons d ds)
    then have "\<not> isWhiteSpace d"
      unfolding s1_def trimStart_def by (rule word_starts)
    with Cons show ?thesis
      by simp
  qed
  then have "trimEnd (replaceWhitespace s1) =
      (if splitWords s1 = [] then [] else joinWords (splitWords s1))"
    using trimEnd_replaceWhitespace [of s1] by simp
  also have "\<dots> = joinWords (splitWords s1)"
    by simp
  also have "\<dots> = joinWords (splitWords s)"
    unfolding s1_def trimStart_def by (simp only: splitWords_trimStart)
  finally show ?thesis
    by (simp add: trim_def trimStart_replaceWhitespace s1_def)
qed

section \<open>The document tree\<close>

text \<open>
  What the parser hands to \<^verbatim>\<open>scrapePage\<close>: a tree of element, text and comment nodes.
  An element has its tag name, the value of its \<^verbatim>\<open>id\<close> attribute, the value of its
  \<^verbatim>\<open>class\<close> attribute (each empty when the element has none) and its child nodes. The
  parser of an HTML document gives the tag name of an HTML element in lower case. A
  document is the list of the children of the document node.
\<close>

datatype node =
    Element string string string "node list"
  | Text string
  | Comment string

type_synonym document = "node list"

text \<open>
  \<^verbatim>\<open>element.textContent\<close>: the texts of all text nodes below the element, in document
  order. A comment adds nothing to the text of the elements around it.
\<close>

fun textContent :: "node \<Rightarrow> string" where
  "textContent (Element tag eid cls children) = concat (map textContent children)"
| "textContent (Text s) = s"
| "textContent (Comment s) = []"

text \<open>
  An element as a script holds it: the node together with its ancestors, the parent
  first, which is what \<^verbatim>\<open>closest\<close> walks. \<open>allElements\<close> is
  \<^verbatim>\<open>document.querySelectorAll("*")\<close>: every element of the tree, in document order (an
  element before its descendants, siblings from first to last).
\<close>

type_synonym element = "node \<times> node list"

fun elementsIn :: "node list \<Rightarrow> node \<Rightarrow> element list" where
  "elementsIn ancestors (Element tag eid cls children) =
     (Element tag eid cls children, ancestors) #
     concat (map (elementsIn (Element tag eid cls children # ancestors)) children)"
| "elementsIn ancestors (Text s) = []"
| "elementsIn ancestors (Comment s) = []"

definition allElements :: "document \<Rightarrow> element list" where
  "allElements doc = concat (map (elementsIn []) doc)"

text \<open>
  The elements alone, without their ancestors: the preorder walk of the tree.
\<close>

fun descendantElements :: "node \<Rightarrow> node list" where
  "descendantElements (Element tag eid cls children) =
     Element tag eid cls children # concat (map descendantElements children)"
| "descendantElements (Text s) = []"
| "descendantElements (Comment s) = []"

subsection \<open>Selectors\<close>

text \<open>
  \<^verbatim>\<open>scrapePage\<close> builds three kinds of selectors and joins them with commas: a tag name
  \<^verbatim>\<open>t\<close> as it is (a type selector), \<^verbatim>\<open>[id*='v']\<close> and \<^verbatim>\<open>[class*='v']\<close>. The selector engine
  belongs to the DOM library, so the model keeps what a selector list denotes instead
  of its text: a type selector matches the elements with that tag name, and
  \<^verbatim>\<open>[a*='v']\<close> matches the elements whose attribute \<^verbatim>\<open>a\<close> has \<^verbatim>\<open>v\<close> as a substring, and
  none when \<^verbatim>\<open>v\<close> is empty.
\<close>

datatype selector = TypeSelector string | IdContains string | ClassContains string

fun matchesSelector :: "selector \<Rightarrow> node \<Rightarrow> bool" where
  "matchesSelector (TypeSelector t) (Element tag eid cls children) = (tag = t)"
| "matchesSelector (IdContains v) (Element tag eid cls children) = (v \<noteq> [] \<and> sublist v eid)"
| "matchesSelector (ClassContains v) (Element tag eid cls children) = (v \<noteq> [] \<and> sublist v cls)"
| "matchesSelector sel (Text s) = False"
| "matchesSelector sel (Comment s) = False"

definition matchesAny :: "selector list \<Rightarrow> node \<Rightarrow> bool" where
  "matchesAny selectors n = list_ex (\<lambda>sel. matchesSelector sel n) selectors"

definition querySelectorAll :: "document \<Rightarrow> selector list \<Rightarrow> element list" where
  "querySelectorAll doc selectors = filter (\<lambda>e. matchesAny selectors (fst e)) (allElements doc)"

text \<open>
  \<^verbatim>\<open>element.closest(selectors)\<close>: the element itself or its nearest ancestor that matches,
  null when there is none.
\<close>

definition closest :: "element \<Rightarrow> selector list \<Rightarrow> node option" where
  "closest e selectors = find (matchesAny selectors) (fst e # snd e)"

text \<open>
  The entries for which the text of the selector means the above. A tag name is a
  letter followed by letters, digits and hyphens, in lower case (a type selector in
  upper case would be compared in lower case, and anything else is another kind of
  selector, or none). A substring is put between single quotes as it is, so it has no
  quote, no backslash, no line break and no null character. A tag name is not empty,
  so the joined text of a list of selectors is empty, and falsy, exactly when the
  list is.
\<close>

definition isTagName :: "string \<Rightarrow> bool" where
  "isTagName t =
     (case t of
        [] \<Rightarrow> False
      | c # cs \<Rightarrow>
          c \<in> set ''abcdefghijklmnopqrstuvwxyz'' \<and>
          list_all (\<lambda>a. a \<in> set ''abcdefghijklmnopqrstuvwxyz0123456789-'') cs)"

definition isQuotable :: "string \<Rightarrow> bool" where
  "isQuotable v =
     list_all (\<lambda>a. a \<notin> set [CHR 0x00, CHR 0x0A, CHR 0x0C, CHR 0x0D, CHR 0x27, CHR 0x5C]) v"

definition wellFormedFilter ::
  "string list \<Rightarrow> string list \<Rightarrow> string list \<Rightarrow> string list \<Rightarrow> bool" where
  "wellFormedFilter excludeElements excludeIDs excludeClasses includeElements =
     (list_all isTagName excludeElements \<and> list_all isQuotable excludeIDs \<and>
      list_all isQuotable excludeClasses \<and> list_all isTagName includeElements)"

section \<open>The Text Extractor: scrapePage\<close>

text \<open>
  The argument \<^verbatim>\<open>url\<close> can be any value; \<open>falsy\<close> is \<^verbatim>\<open>!url\<close> and \<open>typeof\<close> is the operator
  of the language. A number stands for itself only as far as the two need it.
\<close>

datatype jsvalue =
    JSUndefined | JSNull | JSBoolean bool | JSNumber int | JSString string | JSObject

fun falsy :: "jsvalue \<Rightarrow> bool" where
  "falsy JSUndefined = True"
| "falsy JSNull = True"
| "falsy (JSBoolean b) = (\<not> b)"
| "falsy (JSNumber n) = (n = 0)"
| "falsy (JSString s) = (s = [])"
| "falsy JSObject = False"

fun typeof :: "jsvalue \<Rightarrow> string" where
  "typeof JSUndefined = ''undefined''"
| "typeof JSNull = ''object''"
| "typeof (JSBoolean b) = ''boolean''"
| "typeof (JSNumber n) = ''number''"
| "typeof (JSString s) = ''string''"
| "typeof JSObject = ''object''"

text \<open>
  The two collaborators of \<^verbatim>\<open>scrapePage\<close>: \<open>axios_get\<close> gives the markup served for a
  URL, or nothing when the request fails and \<^verbatim>\<open>axios.get\<close> throws; \<open>jsdom\<close> gives the
  document parsed from a markup, or nothing when \<^verbatim>\<open>new JSDOM(html)\<close> throws. What
  \<^verbatim>\<open>scrapePage\<close> does besides returning is kept as a list of effects.
\<close>

record env =
  axios_get :: "string \<Rightarrow> string option"
  jsdom :: "string \<Rightarrow> document option"

datatype effect = AxiosGet string | NewJSDOM string | ConsoleError

text \<open>
  The body of both \<^verbatim>\<open>forEach\<close> callbacks:
  \<^verbatim>\<open>const text = element.textContent.replace(/\s+/g, " ").trim(); if (text) { outputTexts.push(text); }\<close>
\<close>

definition pushText :: "string list \<Rightarrow> element \<Rightarrow> string list" where
  "pushText outputTexts element =
     (let text = trim (replaceWhitespace (textContent (fst element)))
      in if text \<noteq> [] then outputTexts @ [text] else outputTexts)"

text \<open>
  \<^verbatim>\<open>scrapePage(url, excludeElements, excludeIDs, excludeClasses, includeElements)\<close>. It
  throws when \<^verbatim>\<open>!url || typeof url !== "string"\<close>, before anything else (the promise is
  rejected). Everything after the selectors are built runs in one \<^verbatim>\<open>try\<close> block whose
  \<^verbatim>\<open>catch\<close> logs the error and returns the empty array. The values of \<open>url\<close> other than
  a string never reach the \<open>case\<close>: the test before it refuses them.

  The definition follows the code for the filters that \<open>wellFormedFilter\<close> accepts.
  For other entries the code differs: it tests the joined text of the selectors, not
  the lists (an include list that holds only the empty string selects every element),
  it compares a type selector in upper case in lower case, it reads the escapes of a
  substring, and a selector that does not parse throws inside the \<^verbatim>\<open>try\<close> block and
  gives the empty array. A theorem whose conclusion depends on which elements a
  filter selects is stated for well-formed filters.
\<close>

definition scrapePage ::
  "env \<Rightarrow> jsvalue \<Rightarrow> string list \<Rightarrow> string list \<Rightarrow> string list \<Rightarrow> string list \<Rightarrow>
   (error + string list) \<times> effect list" where
  "scrapePage env url excludeElements excludeIDs excludeClasses includeElements =
     (if falsy url \<or> typeof url \<noteq> ''string''
      then (Inl (Error ''Invalid URL provided''), [])
      else
        let combinedExcludeSelectors =
              map TypeSelector excludeElements @ map IdContains excludeIDs @
              map ClassContains excludeClasses;
            includeSelectors = map TypeSelector includeElements
        in case url of
             JSString u \<Rightarrow>
               (case axios_get env u of
                  None \<Rightarrow> (Inr [], [AxiosGet u, ConsoleError])
                | Some html \<Rightarrow>
                    (case jsdom env html of
                       None \<Rightarrow> (Inr [], [AxiosGet u, NewJSDOM html, ConsoleError])
                     | Some doc \<Rightarrow>
                         let elements =
                               (if includeSelectors \<noteq> []
                                then querySelectorAll doc includeSelectors
                                else allElements doc);
                             outputTexts =
                               (if combinedExcludeSelectors \<noteq> []
                                then foldl (\<lambda>outputTexts element.
                                       case closest element combinedExcludeSelectors of
                                         Some ancestor \<Rightarrow> outputTexts
                                       | None \<Rightarrow> pushText outputTexts element) [] elements
                                else foldl pushText [] elements)
                         in (Inr outputTexts, [AxiosGet u, NewJSDOM html])))
           | other \<Rightarrow> (Inl (Error ''Invalid URL provided''), []))"

subsection \<open>The steps of the specification\<close>

text \<open>
  The vocabulary of the specification, to state what \<^verbatim>\<open>scrapePage\<close> returns: the
  candidates (step 2), the combined exclusion (step 3), the candidates that are not
  excluded, and the fragments they give (step 4).
\<close>

definition normalisedText :: "element \<Rightarrow> string" where
  "normalisedText e = trim (replaceWhitespace (textContent (fst e)))"

definition fragments :: "element list \<Rightarrow> string list" where
  "fragments es = filter (\<lambda>t. t \<noteq> []) (map normalisedText es)"

definition candidates :: "document \<Rightarrow> string list \<Rightarrow> element list" where
  "candidates doc includeElements =
     (if includeElements \<noteq> [] then querySelectorAll doc (map TypeSelector includeElements)
      else allElements doc)"

definition exclusion :: "string list \<Rightarrow> string list \<Rightarrow> string list \<Rightarrow> selector list" where
  "exclusion excludeElements excludeIDs excludeClasses =
     map TypeSelector excludeElements @ map IdContains excludeIDs @
     map ClassContains excludeClasses"

definition survivors ::
  "document \<Rightarrow> string list \<Rightarrow> string list \<Rightarrow> string list \<Rightarrow> string list \<Rightarrow> element list" where
  "survivors doc excludeElements excludeIDs excludeClasses includeElements =
     filter (\<lambda>e. closest e (exclusion excludeElements excludeIDs excludeClasses) = None)
       (candidates doc includeElements)"

text \<open>
  \<open>underTag T e\<close>: the element \<open>e\<close> or one of its ancestors has the tag name \<open>T\<close>.
\<close>

definition underTag :: "string \<Rightarrow> element \<Rightarrow> bool" where
  "underTag T e = list_ex (matchesSelector (TypeSelector T)) (fst e # snd e)"

text \<open>
  The document without its subtrees whose root has the tag name \<open>T\<close>.
\<close>

fun pruneNode :: "string \<Rightarrow> node \<Rightarrow> node list" where
  "pruneNode T (Element tag eid cls children) =
     (if tag = T then [] else [Element tag eid cls (concat (map (pruneNode T) children))])"
| "pruneNode T (Text s) = [Text s]"
| "pruneNode T (Comment s) = [Comment s]"

definition withoutTag :: "string \<Rightarrow> document \<Rightarrow> document" where
  "withoutTag T doc = concat (map (pruneNode T) doc)"

text \<open>
  When is a URL argument refused: it is absent, or not a string, or the empty string.
\<close>

definition invalidUrl :: "jsvalue \<Rightarrow> bool" where
  "invalidUrl url = (case url of JSString s \<Rightarrow> s = [] | other \<Rightarrow> True)"

subsection \<open>Example pages\<close>

text \<open>
  \<open>parsed markup doc\<close> serves \<open>markup\<close> for every URL and parses it to \<open>doc\<close>;
  \<open>unreachable\<close> fails every request; \<open>offline u env\<close> is \<open>env\<close> where only \<open>u\<close> is still
  served.
\<close>

definition parsed :: "string \<Rightarrow> document \<Rightarrow> env" where
  "parsed markup doc =
     \<lparr>axios_get = (\<lambda>u. Some markup),
      jsdom = (\<lambda>html. if html = markup then Some doc else None)\<rparr>"

definition unreachable :: env where
  "unreachable = \<lparr>axios_get = (\<lambda>u. None), jsdom = (\<lambda>html. None)\<rparr>"

definition offline :: "string \<Rightarrow> env \<Rightarrow> env" where
  "offline u env = env\<lparr>axios_get := (\<lambda>v. if v = u then axios_get env v else None)\<rparr>"

definition url1 :: string where
  "url1 = ''https://a.example/''"

definition markup1 :: string where
  "markup1 = ''<div id=main class=box>a<span>b</span></div>''"

definition page1 :: document where
  "page1 = [Element ''html'' [] [] [Element ''head'' [] [] [],
     Element ''body'' [] []
       [Element ''div'' ''main'' ''box'' [Text ''a'', Element ''span'' [] [] [Text ''b'']]]]]"

definition markup2 :: string where
  "markup2 = ''<p>  hello'' @ [CHR 0x0A, CHR 0x0A] @ '' world '' @ [CHR 0x09] @ ''</p>''"

definition page2 :: document where
  "page2 = [Element ''html'' [] [] [Element ''head'' [] [] [],
     Element ''body'' [] []
       [Element ''p'' [] []
          [Text (''  hello'' @ [CHR 0x0A, CHR 0x0A] @ '' world '' @ [CHR 0x09])]]]]"

subsection \<open>What scrapePage returns\<close>

lemma pushText_fragments: "pushText out e = out @ fragments [e]"
  by (simp add: pushText_def fragments_def normalisedText_def Let_def)

lemma fragments_append: "fragments (xs @ ys) = fragments xs @ fragments ys"
  by (simp add: fragments_def)

lemma fragments_Cons: "fragments (e # es) = fragments [e] @ fragments es"
  by (simp add: fragments_def)

lemma foldl_pushText: "foldl pushText out es = out @ fragments es"
proof (induction es arbitrary: out)
  case Nil
  show ?case
    by (simp add: fragments_def)
next
  case (Cons e es)
  have "foldl pushText out (e # es) = (out @ fragments [e]) @ fragments es"
    by (simp add: Cons.IH pushText_fragments)
  also have "\<dots> = out @ fragments (e # es)"
    by (simp add: fragments_Cons [of e es])
  finally show ?case .
qed

lemma foldl_excluding:
  "foldl (\<lambda>outputTexts element.
            case closest element sels of Some ancestor \<Rightarrow> outputTexts
            | None \<Rightarrow> pushText outputTexts element) out es =
   out @ fragments (filter (\<lambda>e. closest e sels = None) es)"
proof (induction es arbitrary: out)
  case Nil
  show ?case
    by (simp add: fragments_def)
next
  case (Cons e es)
  show ?case
  proof (cases "closest e sels = None")
    case True
    then have "foldl (\<lambda>outputTexts element.
            case closest element sels of Some ancestor \<Rightarrow> outputTexts
            | None \<Rightarrow> pushText outputTexts element) out (e # es) =
        (out @ fragments [e]) @ fragments (filter (\<lambda>e. closest e sels = None) es)"
      by (simp add: Cons.IH pushText_fragments)
    also have "\<dots> = out @ fragments (e # filter (\<lambda>e. closest e sels = None) es)"
      by (simp add: fragments_Cons [of e "filter (\<lambda>e. closest e sels = None) es"])
    finally show ?thesis
      using True by simp
  next
    case False
    then obtain ancestor where "closest e sels = Some ancestor"
      by (cases "closest e sels") simp_all
    then show ?thesis
      by (simp add: Cons.IH)
  qed
qed

lemma closest_no_selector: "closest e [] = None"
  by (simp add: closest_def matchesAny_def find_None_iff)

text \<open>
  When the page is fetched and parsed, the result is the fragments of the candidates
  that are not excluded, whichever of the two loops runs.
\<close>

lemma scrapePage_success:
  assumes "axios_get env u = Some html" and "jsdom env html = Some doc" and "u \<noteq> []"
  shows "scrapePage env (JSString u) excludeElements excludeIDs excludeClasses includeElements =
     (Inr (fragments (survivors doc excludeElements excludeIDs excludeClasses includeElements)),
      [AxiosGet u, NewJSDOM html])"
proof (cases "exclusion excludeElements excludeIDs excludeClasses = []")
  case True
  then have "survivors doc excludeElements excludeIDs excludeClasses includeElements =
      candidates doc includeElements"
    by (simp add: survivors_def closest_no_selector)
  with True assms show ?thesis
    by (simp add: scrapePage_def exclusion_def candidates_def foldl_pushText)
next
  case False
  with assms show ?thesis
    by (simp add: scrapePage_def exclusion_def [symmetric] survivors_def candidates_def
        foldl_excluding)
qed

lemma scrapePage_failure:
  assumes "u \<noteq> []"
    and "axios_get env u = None \<or> (\<exists>html. axios_get env u = Some html \<and> jsdom env html = None)"
  shows "fst (scrapePage env (JSString u) excludeElements excludeIDs excludeClasses
            includeElements) = Inr []"
  using assms by (auto simp: scrapePage_def)

lemma elementsIn_nodes: "map fst (elementsIn ancestors n) = descendantElements n"
proof (induction n arbitrary: ancestors)
  case (Element tag eid cls children)
  have "concat (map (\<lambda>child. map fst
            (elementsIn (Element tag eid cls children # ancestors) child)) children) =
      concat (map descendantElements children)"
    by (rule arg_cong [where f = concat], rule map_cong [OF refl]) (rule Element.IH)
  then show ?case
    by (simp add: map_concat comp_def)
next
  case (Text s)
  show ?case
    by simp
next
  case (Comment s)
  show ?case
    by simp
qed

lemma allElements_nodes: "map fst (allElements doc) = concat (map descendantElements doc)"
  by (simp add: allElements_def map_concat comp_def elementsIn_nodes)

lemma normalisedText_words:
  "normalisedText e = joinWords (splitWords (textContent (fst e)))"
  by (simp add: normalisedText_def trim_replaceWhitespace)

lemma candidates_subset: "set (candidates doc includeElements) \<subseteq> set (allElements doc)"
  by (simp add: candidates_def querySelectorAll_def)

lemma survivors_subset:
  "set (survivors doc excludeElements excludeIDs excludeClasses includeElements) \<subseteq>
   set (allElements doc)"
  using candidates_subset [of doc includeElements] by (auto simp: survivors_def)

lemma parsed_page1:
  "url1 \<noteq> []"
  "axios_get (parsed markup1 page1) url1 = Some markup1"
  "jsdom (parsed markup1 page1) markup1 = Some page1"
  by (simp_all add: url1_def parsed_def)

subsection \<open>No filter\<close>

text \<open>
  Claim C5. When the include list and the three exclude lists are empty and the page
  is fetched and parsed, \<^verbatim>\<open>scrapePage\<close> returns, for every element of the tree in
  document order, the words of its text content joined by single spaces, whenever
  that is not empty. The text of a nested element comes once for the element and
  once for each of its ancestors.
\<close>

theorem scrapePage_without_filters:
  assumes "u \<noteq> []" and "axios_get env u = Some html" and "jsdom env html = Some doc"
  shows "fst (scrapePage env (JSString u) [] [] [] []) =
     Inr (filter (\<lambda>t. t \<noteq> [])
           (map (\<lambda>n. joinWords (splitWords (textContent n)))
             (concat (map descendantElements doc))))"
proof -
  have "survivors doc [] [] [] [] = allElements doc"
    by (simp add: survivors_def exclusion_def closest_no_selector candidates_def)
  moreover have "map normalisedText (allElements doc) =
      map (\<lambda>n. joinWords (splitWords (textContent n))) (map fst (allElements doc))"
    by (simp add: normalisedText_words)
  ultimately have "fragments (survivors doc [] [] [] []) =
      filter (\<lambda>t. t \<noteq> []) (map (\<lambda>n. joinWords (splitWords (textContent n)))
        (map fst (allElements doc)))"
    by (simp only: fragments_def)
  then show ?thesis
    using scrapePage_success [OF assms(2,3,1)] by (simp add: allElements_nodes)
qed

theorem scrapePage_without_filters_witness:
  "''https://a.example/'' \<noteq> [] \<and>
   axios_get (parsed markup1 page1) ''https://a.example/'' = Some markup1 \<and>
   jsdom (parsed markup1 page1) markup1 = Some page1 \<and>
   fst (scrapePage (parsed markup1 page1) (JSString ''https://a.example/'') [] [] [] []) =
     Inr [''ab'', ''ab'', ''ab'', ''b'']"
proof -
  have u: "''https://a.example/'' \<noteq> []"
    by simp
  have g: "axios_get (parsed markup1 page1) ''https://a.example/'' = Some markup1"
    by (simp add: parsed_def)
  have p: "jsdom (parsed markup1 page1) markup1 = Some page1"
    by (simp add: parsed_def)
  have "filter (\<lambda>t. t \<noteq> [])
          (map (\<lambda>n. joinWords (splitWords (textContent n)))
            (concat (map descendantElements page1))) = [''ab'', ''ab'', ''ab'', ''b'']"
    by code_simp
  with scrapePage_without_filters [OF u g p] show ?thesis
    using g p by simp
qed

subsection \<open>Failures\<close>

text \<open>
  Claim C6. For a URL that is a string and not empty and a well-formed filter,
  \<^verbatim>\<open>scrapePage\<close> returns the empty list when the request fails or the markup cannot be
  parsed, and it returns the empty list as well when the page is parsed and no
  candidate gives a fragment: the value returned is the same in both cases.
\<close>

theorem scrapePage_empty_on_failure:
  assumes "u \<noteq> []"
    and "wellFormedFilter excludeElements excludeIDs excludeClasses includeElements"
  shows "(axios_get env u = None \<or>
            (\<exists>html. axios_get env u = Some html \<and> jsdom env html = None) \<longrightarrow>
          fst (scrapePage env (JSString u) excludeElements excludeIDs excludeClasses
                 includeElements) = Inr []) \<and>
         ((\<exists>html doc. axios_get env u = Some html \<and> jsdom env html = Some doc \<and>
             fragments (survivors doc excludeElements excludeIDs excludeClasses
                includeElements) = []) \<longrightarrow>
          fst (scrapePage env (JSString u) excludeElements excludeIDs excludeClasses
                 includeElements) = Inr [])"
proof (intro conjI impI)
  assume "axios_get env u = None \<or>
      (\<exists>html. axios_get env u = Some html \<and> jsdom env html = None)"
  with assms(1) show "fst (scrapePage env (JSString u) excludeElements excludeIDs excludeClasses
      includeElements) = Inr []"
    by (rule scrapePage_failure)
next
  assume "\<exists>html doc. axios_get env u = Some html \<and> jsdom env html = Some doc \<and>
      fragments (survivors doc excludeElements excludeIDs excludeClasses includeElements) = []"
  then obtain html doc
    where ok: "axios_get env u = Some html" "jsdom env html = Some doc"
      and none: "fragments (survivors doc excludeElements excludeIDs excludeClasses
        includeElements) = []"
    by (elim exE conjE)
  from scrapePage_success [OF ok assms(1)] none
  show "fst (scrapePage env (JSString u) excludeElements excludeIDs excludeClasses
      includeElements) = Inr []"
    by simp
qed

theorem scrapePage_empty_on_failure_witness:
  "''https://a.example/'' \<noteq> [] \<and>
   wellFormedFilter [] [] [] [''p''] \<and>
   axios_get unreachable ''https://a.example/'' = None \<and>
   fst (scrapePage unreachable (JSString ''https://a.example/'') [] [] [] [''p'']) = Inr [] \<and>
   axios_get (parsed markup1 page1) ''https://a.example/'' = Some markup1 \<and>
   jsdom (parsed markup1 page1) markup1 = Some page1 \<and>
   fragments (survivors page1 [] [] [] [''p'']) = [] \<and>
   fst (scrapePage (parsed markup1 page1) (JSString ''https://a.example/'') [] [] [] [''p'']) =
     Inr []"
proof -
  have u: "''https://a.example/'' \<noteq> []"
    by simp
  have f: "axios_get unreachable ''https://a.example/'' = None"
    by (simp add: unreachable_def)
  have g: "axios_get (parsed markup1 page1) ''https://a.example/'' = Some markup1"
    by (simp add: parsed_def)
  have p: "jsdom (parsed markup1 page1) markup1 = Some page1"
    by (simp add: parsed_def)
  have n: "fragments (survivors page1 [] [] [] [''p'']) = []"
    by code_simp
  have w: "wellFormedFilter [] [] [] [''p'']"
    by (simp add: wellFormedFilter_def isTagName_def)
  from scrapePage_empty_on_failure [OF u w, of unreachable] f
  have 1: "fst (scrapePage unreachable (JSString ''https://a.example/'') [] [] [] [''p'']) =
      Inr []"
    by simp
  from scrapePage_empty_on_failure [OF u w, of "parsed markup1 page1"]
    g p n
  have 2: "fst (scrapePage (parsed markup1 page1) (JSString ''https://a.example/'')
      [] [] [] [''p'']) = Inr []"
    by blast
  from u w f g p n 1 2 show ?thesis
    by (intro conjI)
qed

text \<open>
  Claim C9. When the URL argument is absent, empty or not a string, \<^verbatim>\<open>scrapePage\<close>
  raises the error \<^verbatim>\<open>Invalid URL provided\<close> and nothing has been fetched or parsed (the
  list of effects is empty). For every other URL argument it returns a list.
\<close>

theorem scrapePage_invalid_url:
  "(invalidUrl url \<longrightarrow>
      scrapePage env url excludeElements excludeIDs excludeClasses includeElements =
        (Inl (Error ''Invalid URL provided''), [])) \<and>
   (\<not> invalidUrl url \<longrightarrow>
      (\<exists>outputTexts. fst (scrapePage env url excludeElements excludeIDs excludeClasses
         includeElements) = Inr outputTexts))"
proof (cases url)
  case (JSString s)
  show ?thesis
  proof (cases "s = []")
    case True
    with JSString show ?thesis
      by (simp add: invalidUrl_def scrapePage_def)
  next
    case False
    with JSString show ?thesis
      by (simp add: invalidUrl_def scrapePage_def Let_def split: option.splits)
  qed
qed (simp_all add: invalidUrl_def scrapePage_def)

theorem scrapePage_invalid_url_witness:
  "invalidUrl JSUndefined \<and>
   scrapePage (parsed markup1 page1) JSUndefined [] [] [] [] =
     (Inl (Error ''Invalid URL provided''), []) \<and>
   invalidUrl (JSString []) \<and>
   scrapePage (parsed markup1 page1) (JSString []) [] [] [] [] =
     (Inl (Error ''Invalid URL provided''), []) \<and>
   invalidUrl (JSNumber 42) \<and>
   scrapePage (parsed markup1 page1) (JSNumber 42) [] [] [] [] =
     (Inl (Error ''Invalid URL provided''), []) \<and>
   \<not> invalidUrl (JSString ''https://a.example/'') \<and>
   (\<exists>outputTexts. fst (scrapePage (parsed markup1 page1) (JSString ''https://a.example/'')
      [] [] [] []) = Inr outputTexts)"
proof -
  have i: "invalidUrl JSUndefined" "invalidUrl (JSString [])" "invalidUrl (JSNumber 42)"
    "\<not> invalidUrl (JSString ''https://a.example/'')"
    by (simp_all add: invalidUrl_def)
  from scrapePage_invalid_url [of JSUndefined "parsed markup1 page1" "[]" "[]" "[]" "[]"]
    scrapePage_invalid_url [of "JSString []" "parsed markup1 page1" "[]" "[]" "[]" "[]"]
    scrapePage_invalid_url [of "JSNumber 42" "parsed markup1 page1" "[]" "[]" "[]" "[]"]
    scrapePage_invalid_url [of "JSString ''https://a.example/''" "parsed markup1 page1"
      "[]" "[]" "[]" "[]"] i
  show ?thesis
    by blast
qed

subsection \<open>Normalised fragments\<close>

text \<open>
  Claim C7. Every fragment that \<^verbatim>\<open>scrapePage\<close> returns is not empty and is the text
  content of an element of the page, with every run of whitespace replaced by one
  space and then trimmed, which is the words of that text joined by single spaces. A
  paragraph whose text is \<^verbatim>\<open>"  hello\n\n world \t"\<close> gives the fragment \<^verbatim>\<open>hello world\<close>.
\<close>

theorem scrapePage_fragments_normalised:
  assumes "fst (scrapePage env url excludeElements excludeIDs excludeClasses includeElements) =
      Inr outputTexts"
    and "t \<in> set outputTexts"
  shows "t \<noteq> [] \<and>
     (\<exists>u html doc e. url = JSString u \<and> axios_get env u = Some html \<and>
        jsdom env html = Some doc \<and> e \<in> set (allElements doc) \<and>
        t = trim (replaceWhitespace (textContent (fst e))) \<and>
        t = joinWords (splitWords (textContent (fst e)))) \<and>
     fst (scrapePage (parsed markup2 page2) (JSString url1) [] [] [] [''p'']) =
       Inr [''hello world'']"
proof -
  have example: "fst (scrapePage (parsed markup2 page2) (JSString url1) [] [] [] [''p'']) =
       Inr [''hello world'']"
    by code_simp
  from assms(1) obtain u where url: "url = JSString u" and u: "u \<noteq> []"
    by (cases url) (auto simp: scrapePage_def split: if_splits)
  from assms url u obtain html where html: "axios_get env u = Some html"
    by (cases "axios_get env u") (auto simp: scrapePage_def)
  from assms url u html obtain doc where doc: "jsdom env html = Some doc"
    by (cases "jsdom env html") (auto simp: scrapePage_def)
  from scrapePage_success [OF html doc u] assms url
  have "t \<in> set (fragments
      (survivors doc excludeElements excludeIDs excludeClasses includeElements))"
    by simp
  then obtain e
    where e: "e \<in> set (survivors doc excludeElements excludeIDs excludeClasses includeElements)"
      and t: "t = normalisedText e" "t \<noteq> []"
    by (auto simp: fragments_def)
  from e have "e \<in> set (allElements doc)"
    using survivors_subset by blast
  moreover from t(1) have "t = trim (replaceWhitespace (textContent (fst e)))"
    by (simp add: normalisedText_def)
  moreover from t(1) have "t = joinWords (splitWords (textContent (fst e)))"
    by (simp add: normalisedText_words)
  ultimately show ?thesis
    using url html doc t(2) example by blast
qed

theorem scrapePage_fragments_normalised_witness:
  "fst (scrapePage (parsed markup2 page2) (JSString url1) [] [] [] []) =
     Inr [''hello world'', ''hello world'', ''hello world''] \<and>
   ''hello world'' \<in> set [''hello world'', ''hello world'', ''hello world''] \<and>
   (\<exists>e. e \<in> set (allElements page2) \<and>
      ''hello world'' = trim (replaceWhitespace (textContent (fst e))))"
proof -
  have r: "fst (scrapePage (parsed markup2 page2) (JSString url1) [] [] [] []) =
     Inr [''hello world'', ''hello world'', ''hello world'']"
    by code_simp
  have m: "''hello world'' \<in> set [''hello world'', ''hello world'', ''hello world'']"
    by simp
  from scrapePage_fragments_normalised [OF r m]
  obtain u html doc e where "JSString url1 = JSString u"
    and "axios_get (parsed markup2 page2) u = Some html"
    and "jsdom (parsed markup2 page2) html = Some doc"
    and e: "e \<in> set (allElements doc)"
      "''hello world'' = trim (replaceWhitespace (textContent (fst e)))"
    by blast
  then have "doc = page2"
    by (simp add: parsed_def split: if_splits)
  with e r m show ?thesis
    by blast
qed

subsection \<open>Determinism\<close>

text \<open>
  Claim C8. Two runs of \<^verbatim>\<open>scrapePage\<close> with the same URL and the same filter, in two
  environments that serve the same markup for that URL and parse alike, return the
  same list and have the same effects, whatever else differs between the
  environments.
\<close>

theorem scrapePage_same_markup_same_output:
  assumes "axios_get env1 u = axios_get env2 u" and "jsdom env1 = jsdom env2"
  shows "scrapePage env1 (JSString u) excludeElements excludeIDs excludeClasses includeElements =
         scrapePage env2 (JSString u) excludeElements excludeIDs excludeClasses includeElements"
proof (cases "axios_get env2 u")
  case None
  with assms show ?thesis
    by (simp add: scrapePage_def)
next
  case (Some html)
  with assms show ?thesis
    by (simp add: scrapePage_def)
qed

theorem scrapePage_same_markup_same_output_witness:
  "axios_get (parsed markup1 page1) ''https://a.example/'' =
     axios_get (offline ''https://a.example/'' (parsed markup1 page1)) ''https://a.example/'' \<and>
   jsdom (parsed markup1 page1) = jsdom (offline ''https://a.example/'' (parsed markup1 page1)) \<and>
   axios_get (parsed markup1 page1) ''https://b.example/'' \<noteq>
     axios_get (offline ''https://a.example/'' (parsed markup1 page1)) ''https://b.example/'' \<and>
   scrapePage (parsed markup1 page1) (JSString ''https://a.example/'') [''span''] [] [] [] =
   scrapePage (offline ''https://a.example/'' (parsed markup1 page1))
     (JSString ''https://a.example/'') [''span''] [] [] []"
proof -
  have a: "axios_get (parsed markup1 page1) ''https://a.example/'' =
     axios_get (offline ''https://a.example/'' (parsed markup1 page1)) ''https://a.example/''"
    by (simp add: offline_def)
  have j: "jsdom (parsed markup1 page1) =
      jsdom (offline ''https://a.example/'' (parsed markup1 page1))"
    by (simp add: offline_def)
  have b: "axios_get (parsed markup1 page1) ''https://b.example/'' \<noteq>
     axios_get (offline ''https://a.example/'' (parsed markup1 page1)) ''https://b.example/''"
    by (simp add: offline_def parsed_def)
  from scrapePage_same_markup_same_output [OF a j] a j b show ?thesis
    by (intro conjI)
qed

subsection \<open>Exclusion\<close>

lemma closest_None_iff:
  "closest e sels = None \<longleftrightarrow>
   (\<forall>n\<in>set (fst e # snd e). \<forall>sel\<in>set sels. \<not> matchesSelector sel n)"
  by (auto simp: closest_def find_None_iff matchesAny_def list_ex_iff)

lemma closest_mono:
  assumes "set sels \<subseteq> set sels'" and "closest e sels' = None"
  shows "closest e sels = None"
  using assms unfolding closest_None_iff by blast

lemma closest_insert_tag:
  assumes "set sels' = insert (TypeSelector T) (set sels)"
  shows "closest e sels' = None \<longleftrightarrow> closest e sels = None \<and> \<not> underTag T e"
  unfolding closest_None_iff underTag_def list_ex_iff assms by blast

lemma set_exclusion:
  "set (exclusion excludeElements excludeIDs excludeClasses) =
   TypeSelector ` set excludeElements \<union> IdContains ` set excludeIDs \<union>
   ClassContains ` set excludeClasses"
  by (simp add: exclusion_def Un_assoc)

lemma survivors_mono:
  assumes "set excludeElements \<subseteq> set excludeElements'"
    and "set excludeIDs \<subseteq> set excludeIDs'"
    and "set excludeClasses \<subseteq> set excludeClasses'"
  shows "survivors doc excludeElements' excludeIDs' excludeClasses' includeElements =
     filter (\<lambda>e. closest e (exclusion excludeElements' excludeIDs' excludeClasses') = None)
       (survivors doc excludeElements excludeIDs excludeClasses includeElements)"
proof -
  have "set (exclusion excludeElements excludeIDs excludeClasses) \<subseteq>
      set (exclusion excludeElements' excludeIDs' excludeClasses')"
    unfolding set_exclusion using assms by blast
  then have "\<And>e. closest e (exclusion excludeElements' excludeIDs' excludeClasses') = None \<Longrightarrow>
      closest e (exclusion excludeElements excludeIDs excludeClasses) = None"
    by (rule closest_mono)
  then show ?thesis
    unfolding survivors_def filter_filter by (intro filter_cong refl) blast
qed

lemma subseq_fragments: "subseq es' es \<Longrightarrow> subseq (fragments es') (fragments es)"
  unfolding fragments_def by (intro subseq_filter subseq_map)

lemma survivors_insert_tag:
  assumes "set excludeElements' = insert T (set excludeElements)"
  shows "survivors doc excludeElements' excludeIDs excludeClasses includeElements =
     filter (\<lambda>e. \<not> underTag T e)
       (survivors doc excludeElements excludeIDs excludeClasses includeElements)"
proof -
  have "set (exclusion excludeElements' excludeIDs excludeClasses) =
      insert (TypeSelector T) (set (exclusion excludeElements excludeIDs excludeClasses))"
    unfolding set_exclusion assms by blast
  then have "\<And>e. closest e (exclusion excludeElements' excludeIDs excludeClasses) = None \<longleftrightarrow>
      closest e (exclusion excludeElements excludeIDs excludeClasses) = None \<and> \<not> underTag T e"
    by (rule closest_insert_tag)
  then show ?thesis
    unfolding survivors_def filter_filter by (intro filter_cong refl) blast
qed

text \<open>
  Claim C10. For a URL that is a string and not empty and well-formed filters,
  adding entries to the three exclude lists, with the same include list, gives an
  output that is a subsequence of the output before: no new fragment, no changed
  fragment, the same order.
\<close>

theorem scrapePage_exclusion_monotone:
  assumes "u \<noteq> []"
    and "wellFormedFilter excludeElements excludeIDs excludeClasses includeElements"
    and "wellFormedFilter excludeElements' excludeIDs' excludeClasses' includeElements"
    and "set excludeElements \<subseteq> set excludeElements'"
    and "set excludeIDs \<subseteq> set excludeIDs'"
    and "set excludeClasses \<subseteq> set excludeClasses'"
  shows "\<exists>before after.
     fst (scrapePage env (JSString u) excludeElements excludeIDs excludeClasses
            includeElements) = Inr before \<and>
     fst (scrapePage env (JSString u) excludeElements' excludeIDs' excludeClasses'
            includeElements) = Inr after \<and>
     subseq after before"
proof (cases "axios_get env u")
  case None
  then have "fst (scrapePage env (JSString u) excludeElements excludeIDs excludeClasses
            includeElements) = Inr []"
    and "fst (scrapePage env (JSString u) excludeElements' excludeIDs' excludeClasses'
            includeElements) = Inr []"
    using assms(1) by (simp_all add: scrapePage_failure)
  then show ?thesis
    by simp
next
  case (Some html)
  show ?thesis
  proof (cases "jsdom env html")
    case None
    with Some have "fst (scrapePage env (JSString u) excludeElements excludeIDs excludeClasses
            includeElements) = Inr []"
      and "fst (scrapePage env (JSString u) excludeElements' excludeIDs' excludeClasses'
            includeElements) = Inr []"
      using assms(1) by (simp_all add: scrapePage_failure)
    then show ?thesis
      by simp
  next
    case (Some doc)
    let ?before = "survivors doc excludeElements excludeIDs excludeClasses includeElements"
    let ?after = "survivors doc excludeElements' excludeIDs' excludeClasses' includeElements"
    have "subseq ?after ?before"
      unfolding survivors_mono [OF assms(4-6)] by (rule subseq_filter_left)
    then have "subseq (fragments ?after) (fragments ?before)"
      by (rule subseq_fragments)
    then show ?thesis
      using scrapePage_success [OF \<open>axios_get env u = Some html\<close> Some assms(1)] by simp
  qed
qed

theorem scrapePage_exclusion_monotone_witness:
  "url1 \<noteq> [] \<and>
   wellFormedFilter [''script''] [] [] [] \<and>
   wellFormedFilter [''span'', ''script''] [''ai''] [] [] \<and>
   set [''script''] \<subseteq> set [''span'', ''script''] \<and>
   fst (scrapePage (parsed markup1 page1) (JSString url1) [''script''] [] [] []) =
     Inr [''ab'', ''ab'', ''ab'', ''b''] \<and>
   fst (scrapePage (parsed markup1 page1) (JSString url1) [''span'', ''script''] [''ai''] [] []) =
     Inr [''ab'', ''ab''] \<and>
   (\<exists>before after.
     fst (scrapePage (parsed markup1 page1) (JSString url1) [''script''] [] [] []) =
       Inr before \<and>
     fst (scrapePage (parsed markup1 page1) (JSString url1) [''span'', ''script''] [''ai''] [] []) =
       Inr after \<and>
     subseq after before)"
proof -
  have w1: "wellFormedFilter [''script''] [] [] []"
    by (simp add: wellFormedFilter_def isTagName_def)
  have w2: "wellFormedFilter [''span'', ''script''] [''ai''] [] []"
    by (simp add: wellFormedFilter_def isTagName_def isQuotable_def)
  have s: "set [''script''] \<subseteq> set [''span'', ''script'']"
    "set ([] :: string list) \<subseteq> set [''ai'']" "set ([] :: string list) \<subseteq> set []"
    by simp_all
  have b: "fst (scrapePage (parsed markup1 page1) (JSString url1) [''script''] [] [] []) =
     Inr [''ab'', ''ab'', ''ab'', ''b'']"
    by code_simp
  have a: "fst (scrapePage (parsed markup1 page1) (JSString url1)
      [''span'', ''script''] [''ai''] [] []) = Inr [''ab'', ''ab'']"
    by code_simp
  from scrapePage_exclusion_monotone [OF parsed_page1(1) w1 w2 s, of "parsed markup1 page1"]
    parsed_page1(1) w1 w2 s(1) a b
  show ?thesis
    by (intro conjI)
qed

text \<open>
  Claim C2, as stated, fails. Adding the tag \<^verbatim>\<open>span\<close> to the exclude list should
  remove from the output the text that comes from the \<^verbatim>\<open>span\<close> elements and from their
  descendants, and nothing else, which is the output on the page without its
  \<^verbatim>\<open>span\<close> subtrees. On the page \<^verbatim>\<open><div id=main class=box>a<span>b</span></div>\<close> the
  fragment of the \<^verbatim>\<open>span\<close> itself is gone, but the fragments of its ancestors
  (\<^verbatim>\<open>html\<close>, \<^verbatim>\<open>body\<close> and \<^verbatim>\<open>div\<close>) are still \<^verbatim>\<open>ab\<close>: the text content of an element
  that is not excluded holds the text of all its descendants, the excluded ones
  included.
\<close>

theorem scrapePage_exclude_tag_counterexample:
  "fst (scrapePage (parsed markup1 page1) (JSString url1) [''span''] [] [] []) =
     Inr [''ab'', ''ab'', ''ab''] \<and>
   fst (scrapePage (parsed ''<div id=main class=box>a</div>'' (withoutTag ''span'' page1))
          (JSString url1) [] [] [] []) =
     Inr [''a'', ''a'', ''a'']"
  by code_simp

text \<open>
  Claim C2, amended. When the page is fetched and parsed, adding a tag name \<open>T\<close> to
  the exclude list removes from the output exactly the fragments of the candidates
  that have the tag \<open>T\<close> or an ancestor with the tag \<open>T\<close>. The fragment of every other
  candidate stays, in the same place and with the same text (the text of its
  descendants with the tag \<open>T\<close> included).
\<close>

theorem scrapePage_exclude_tag:
  assumes "u \<noteq> []" and "axios_get env u = Some html" and "jsdom env html = Some doc"
    and "isTagName T"
    and "wellFormedFilter excludeElements excludeIDs excludeClasses includeElements"
    and "set excludeElements' = insert T (set excludeElements)"
  shows "fst (scrapePage env (JSString u) excludeElements excludeIDs excludeClasses
            includeElements) =
           Inr (fragments
             (survivors doc excludeElements excludeIDs excludeClasses includeElements)) \<and>
         fst (scrapePage env (JSString u) excludeElements' excludeIDs excludeClasses
            includeElements) =
           Inr (fragments (filter (\<lambda>e. \<not> underTag T e)
             (survivors doc excludeElements excludeIDs excludeClasses includeElements)))"
  using scrapePage_success [OF assms(2,3,1)] survivors_insert_tag [OF assms(6)] by simp

theorem scrapePage_exclude_tag_witness:
  "url1 \<noteq> [] \<and>
   axios_get (parsed markup1 page1) url1 = Some markup1 \<and>
   jsdom (parsed markup1 page1) markup1 = Some page1 \<and>
   isTagName ''span'' \<and> wellFormedFilter [] [] [] [] \<and>
   set [''span''] = insert ''span'' (set []) \<and>
   fst (scrapePage (parsed markup1 page1) (JSString url1) [] [] [] []) =
     Inr [''ab'', ''ab'', ''ab'', ''b''] \<and>
   fst (scrapePage (parsed markup1 page1) (JSString url1) [''span''] [] [] []) =
     Inr [''ab'', ''ab'', ''ab'']"
proof -
  have t: "isTagName ''span''"
    by (simp add: isTagName_def)
  have w: "wellFormedFilter [] [] [] []"
    by (simp add: wellFormedFilter_def)
  have s: "set [''span''] = insert ''span'' (set [])"
    by simp
  have 1: "fragments (survivors page1 [] [] [] []) = [''ab'', ''ab'', ''ab'', ''b'']"
    by code_simp
  have 2: "fragments (filter (\<lambda>e. \<not> underTag ''span'' e) (survivors page1 [] [] [] [])) =
      [''ab'', ''ab'', ''ab'']"
    by code_simp
  from scrapePage_exclude_tag [OF parsed_page1 t w s] 1 2 parsed_page1 t w s
  show ?thesis
    by simp
qed

end
